theory Spec2Isabelle
  imports Main "HOL-Library.Log_Nat" "HOL-Library.List_Lexorder" "HOL-Library.Char_ord" "HOL-Library.Sublist"
begin

section \<open>Geometry of \<open>batch_resize.py\<close>\<close>

text \<open>
  A box is the Python tuple \<open>(l, t, r, b)\<close> of unbounded integers.
\<close>

type_synonym box = "int \<times> int \<times> int \<times> int"

text \<open>
  \<^verbatim>\<open>
  def center_square(w, h, pad):
      side = min(w, h) - 2*pad
      l = (w-side)//2; t = (h-side)//2
      return l, t, l+side, t+side
  \<close>
  Python's \<open>//\<close> on integers is floor division, which is \<open>div\<close> on \<open>int\<close>.
\<close>

definition center_square :: "int \<Rightarrow> int \<Rightarrow> int \<Rightarrow> box" where
  "center_square w h pad =
     (let side = min w h - 2 * pad;
          l = (w - side) div 2;
          t = (h - side) div 2
      in (l, t, l + side, t + side))"

text \<open>The extents of a box, and containment of a box in the image rectangle.\<close>

definition box_width :: "box \<Rightarrow> int" where
  "box_width bx = (case bx of (l, t, r, b) \<Rightarrow> r - l)"

definition box_height :: "box \<Rightarrow> int" where
  "box_height bx = (case bx of (l, t, r, b) \<Rightarrow> b - t)"

definition within_image :: "box \<Rightarrow> int \<Rightarrow> int \<Rightarrow> bool" where
  "within_image bx w h = (case bx of (l, t, r, b) \<Rightarrow> 0 \<le> l \<and> 0 \<le> t \<and> r \<le> w \<and> b \<le> h)"

section \<open>Errors, strings and paths\<close>

text \<open>
  The exceptions the program can raise. None of them is caught anywhere in
  \<open>batch_resize.py\<close>: there is no \<open>try\<close> in \<open>run_batch\<close>, \<open>run_compose\<close>,
  \<open>process\<close> or \<open>main\<close>. The first four come from the program's own arithmetic and
  look-ups, \<open>UnidentifiedImageError\<close> from \<open>Image.open\<close>, \<open>ValueError\<close> from \<open>Image.crop\<close>
  on an inverted box, \<open>OSError\<close> from loading the pixels of a damaged file and
  \<open>FileNotFoundError\<close> from saving into a directory that does not exist.
\<close>

datatype pyerr =
    ZeroDivisionError
  | OverflowError
  | KeyError
  | IndexError
  | UnidentifiedImageError
  | ValueError
  | OSError
  | FileNotFoundError

text \<open>\<open>str(n)\<close> of an integer, as used by \<open>str(n)\<close> and by the f-strings.\<close>

fun str_nat :: "nat \<Rightarrow> string" where
  "str_nat n =
     (if n < 10 then [''0123456789'' ! n]
      else str_nat (n div 10) @ [''0123456789'' ! (n mod 10)])"

declare str_nat.simps [simp del]

definition str_int :: "int \<Rightarrow> string" where
  "str_int i = (if i < 0 then CHR ''-'' # str_nat (nat (- i)) else str_nat (nat i))"

text \<open>
  \<open>Path.suffix\<close> and \<open>Path.stem\<close> of a file name: with \<open>i = name.rfind('.')\<close>, the
  suffix is \<open>name[i:]\<close> and the stem \<open>name[:i]\<close> when \<open>0 < i < len(name) - 1\<close>; otherwise
  the suffix is empty and the stem is the name.
\<close>

definition rfind_dot :: "string \<Rightarrow> nat option" where
  "rfind_dot name =
     (if CHR ''.'' \<in> set name
      then Some (length name - 1 - length (takeWhile (\<lambda>c. c \<noteq> CHR ''.'') (rev name)))
      else None)"

definition path_suffix :: "string \<Rightarrow> string" where
  "path_suffix name =
     (case rfind_dot name of
        None \<Rightarrow> []
      | Some i \<Rightarrow> if 0 < i \<and> i < length name - 1 then drop i name else [])"

definition path_stem :: "string \<Rightarrow> string" where
  "path_stem name =
     (case rfind_dot name of
        None \<Rightarrow> name
      | Some i \<Rightarrow> if 0 < i \<and> i < length name - 1 then take i name else name)"

text \<open>\<open>str.lower()\<close> on the ASCII letters; names are byte strings here.\<close>

definition lower_char :: "char \<Rightarrow> char" where
  "lower_char c =
     (if CHR ''A'' \<le> c \<and> c \<le> CHR ''Z'' then char_of (of_char c + (32::nat)) else c)"

definition str_lower :: "string \<Rightarrow> string" where
  "str_lower s = map lower_char s"

text \<open>
  The dispatcher's test \<open>item.suffix.lower() in [".jpg", ".jpeg", ".png"]\<close>, and the
  match of a name against the pattern \<open>*.jpg\<close> of \<open>folder.glob("*.jpg")\<close> (case-sensitive,
  as on a POSIX file system: the name ends with \<open>.jpg\<close>).
\<close>

definition is_image_suffix :: "string \<Rightarrow> bool" where
  "is_image_suffix name = (str_lower (path_suffix name) \<in> set [''.jpg'', ''.jpeg'', ''.png''])"

definition glob_jpg_match :: "string \<Rightarrow> bool" where
  "glob_jpg_match name = (4 \<le> length name \<and> drop (length name - 4) name = ''.jpg'')"

section \<open>Python floats and \<open>expand_aspect\<close>\<close>

text \<open>
  A Python \<open>float\<close> is an IEEE 754 binary64 number. A finite one is modelled by its exact
  value, a rational; every operation computes the exact result and rounds it to the
  nearest double, ties to even. \<open>round_half_even\<close> rounds a rational to an integer,
  \<open>ilog2 x\<close> is the binary exponent of \<open>x > 0\<close> (\<open>2 ^ e \<le> x < 2 ^ (e + 1)\<close>), and \<open>b64\<close> rounds to
  53 significant bits, to a multiple of \<open>2 ^ -1074\<close> below \<open>2 ^ -1022\<close> (the subnormal
  range). The exponent of \<open>b64\<close> is not bounded above: a result of magnitude \<open>2 ^ 1024\<close>
  or more stands for an overflow, which true division and \<open>float(int)\<close> raise at once and
  which \<open>*\<close> and \<open>/\<close> on floats turn into an infinity that \<open>int()\<close> then rejects.
\<close>

definition round_half_even :: "rat \<Rightarrow> int" where
  "round_half_even x =
     (let f = \<lfloor>x\<rfloor>; r = x - of_int f
      in if r < 1 / 2 then f
         else if 1 / 2 < r then f + 1
         else if even f then f else f + 1)"

definition ilog2 :: "rat \<Rightarrow> int" where
  "ilog2 x =
     (let (a, b) = quotient_of x; k = bitlen a - bitlen b
      in if 2 powi k \<le> x then k else k - 1)"

definition b64 :: "rat \<Rightarrow> rat" where
  "b64 x =
     (if x = 0 then 0
      else let e = max (ilog2 \<bar>x\<bar>) (- 1022); q = 2 powi (e - 52)
           in of_int (round_half_even (x / q)) * q)"

definition overflows :: "rat \<Rightarrow> bool" where
  "overflows v = (2 ^ 1024 \<le> \<bar>v\<bar>)"

text \<open>\<open>a / b\<close> on two integers: correctly rounded true division.\<close>

definition int_true_div :: "int \<Rightarrow> int \<Rightarrow> pyerr + rat" where
  "int_true_div a b =
     (if b = 0 then Inl ZeroDivisionError
      else let q = b64 (of_int a / of_int b)
           in if overflows q then Inl OverflowError else Inr q)"

text \<open>The conversion of an integer operand of \<open>*\<close> or \<open>/\<close> whose other operand is a float.\<close>

definition float_of_int :: "int \<Rightarrow> pyerr + rat" where
  "float_of_int a =
     (let q = b64 (of_int a) in if overflows q then Inl OverflowError else Inr q)"

text \<open>\<open>int(v)\<close> on a float truncates towards zero and raises on an infinity.\<close>

definition py_int :: "rat \<Rightarrow> pyerr + int" where
  "py_int v =
     (if overflows v then Inl OverflowError
      else Inr (if 0 \<le> v then \<lfloor>v\<rfloor> else \<lceil>v\<rceil>))"

text \<open>
  \<^verbatim>\<open>
  def expand_aspect(l, t, r, b, ratio, w, h, pad):
      bw, bh = r-l, b-t; cr = bw/bh
      if cr < ratio:
          nw = int(bh*ratio); d = (nw-bw)//2; l -= d; r += d
      else:
          nh = int(bw/ratio); d = (nh-bh)//2; t -= d; b += d
      l -= pad; t -= pad; r += pad; b += pad
      return max(l,0), max(t,0), min(r,w), min(b,h)
  \<close>
  \<open>ratio\<close> is a finite double. \<open>grow_aspect\<close> is the box after the \<open>if\<close>/\<open>else\<close>,
  \<open>pad_clamp\<close> the last two lines.
\<close>

definition grow_aspect :: "int \<Rightarrow> int \<Rightarrow> int \<Rightarrow> int \<Rightarrow> rat \<Rightarrow> pyerr + box" where
  "grow_aspect l t r b ratio =
     (let bw = r - l; bh = b - t
      in case int_true_div bw bh of
           Inl e \<Rightarrow> Inl e
         | Inr cr \<Rightarrow>
             if cr < ratio then
               (case float_of_int bh of
                  Inl e \<Rightarrow> Inl e
                | Inr fbh \<Rightarrow>
                    (case py_int (b64 (fbh * ratio)) of
                       Inl e \<Rightarrow> Inl e
                     | Inr nw \<Rightarrow> let d = (nw - bw) div 2 in Inr (l - d, t, r + d, b)))
             else
               (case float_of_int bw of
                  Inl e \<Rightarrow> Inl e
                | Inr fbw \<Rightarrow>
                    if ratio = 0 then Inl ZeroDivisionError
                    else
                      (case py_int (b64 (fbw / ratio)) of
                         Inl e \<Rightarrow> Inl e
                       | Inr nh \<Rightarrow> let d = (nh - bh) div 2 in Inr (l, t - d, r, b + d))))"

definition pad_clamp :: "box \<Rightarrow> int \<Rightarrow> int \<Rightarrow> int \<Rightarrow> box" where
  "pad_clamp bx w h pad =
     (case bx of (l, t, r, b) \<Rightarrow>
        (max (l - pad) 0, max (t - pad) 0, min (r + pad) w, min (b + pad) h))"

definition expand_aspect ::
  "int \<Rightarrow> int \<Rightarrow> int \<Rightarrow> int \<Rightarrow> rat \<Rightarrow> int \<Rightarrow> int \<Rightarrow> int \<Rightarrow> pyerr + box" where
  "expand_aspect l t r b ratio w h pad =
     (case grow_aspect l t r b ratio of
        Inl e \<Rightarrow> Inl e
      | Inr bx \<Rightarrow> Inr (pad_clamp bx w h pad))"

section \<open>Configuration, inputs and outputs\<close>

text \<open>
  The command-line arguments that reach the processing (\<open>--cfg\<close> and \<open>--input-dir\<close>
  select the configuration and the directory listing, which are inputs of the model;
  \<open>--conf\<close> and \<open>--iou-thres\<close> are only forwarded to the detector, which is a parameter
  of the model).
\<close>

record args =
  out_dir :: string
  arg_pad :: int
  min_area :: int
  max_area :: "int option"
  debug :: bool

text \<open>The defaults of \<open>parse_args\<close>.\<close>

definition default_args :: args where
  "default_args =
     \<lparr>out_dir = ''output'', arg_pad = 40, min_area = 0, max_area = None, debug = False\<rparr>"

text \<open>
  The JSON configuration. A profile is \<open>{tag, size: "WxH", pad?}\<close> with the size already
  read as two integers; a layout is \<open>{gutter?, bg_color?, patterns: {"N": {rows: [...]}}}\<close>;
  dictionaries read with \<open>[...]\<close> are maps, entries read with \<open>.get\<close> are options.
\<close>

record profile =
  tag :: string
  size_wh :: "int \<times> int"
  pad_opt :: "int option"

record layout =
  gutter_opt :: "int option"
  bg_color_opt :: "string option"
  patterns :: "string \<rightharpoonup> int list"

record config =
  profiles :: "profile list"
  separator_opt :: "string option"
  default_pad_opt :: "int option"
  layouts :: "string \<rightharpoonup> layout"

text \<open>
  A file of the input tree: its name and, when \<open>Image.open\<close> can read it, the size of
  the image (\<open>Image.open\<close> reads the header only: whether the pixels can be loaded is
  asked of the library, below). A directory entry is a sub-folder with its files, an
  image candidate or anything else.
\<close>

type_synonym image_file = "string \<times> (int \<times> int) option"

datatype entry =
    Dir string "image_file list"
  | File string "(int \<times> int) option"
  | Other string

text \<open>
  What is written: each saved image with its path (the components joined by \<open>/\<close>), a
  description of its pixels and the \<open>quality\<close> argument handed to \<open>save\<close>; and the
  directories: those that exist before the run and each one made by \<open>mkdir\<close>.
\<close>

record paste =
  img :: string
  cell :: "int \<times> int"
  pos :: "int \<times> int"

datatype content =
    Crop string box "int \<times> int"
  | DebugOverlay string box
  | Composite "int \<times> int" string "paste list"

record artifact =
  path :: "string list"
  content :: content
  quality :: "int option"

record fs =
  dirs :: "string list list"
  files :: "artifact list"

text \<open>
  Pillow and the file system are not part of the program. Each of their calls that can
  raise is a question to a parameter \<open>lib\<close> of the model: \<open>lib c\<close> is the exception that
  the call \<open>c\<close> raises, and \<open>None\<close> when it returns.
  \<^item> \<open>Load name\<close>: loading the pixels of the opened file \<open>name\<close> (in \<open>im.crop\<close> and in
    \<open>ImageDraw.Draw(im)\<close>);
  \<^item> \<open>Rectangle name bbox\<close>: \<open>draw.rectangle(bbox, outline="red", width=3)\<close>;
  \<^item> \<open>Fit name size target\<close>: \<open>ImageOps.fit\<close> of an image of that size, taken from the
    file \<open>name\<close>, to the target size (in \<open>run_batch\<close> the image is the crop, and the
    \<open>resize\<close> of \<open>resize_and_save\<close> to the size it already has is part of the call; in
    \<open>run_compose\<close> the image is the opened file, which the call loads);
  \<^item> \<open>New size color\<close>: \<open>Image.new("RGB", size, color=color)\<close>;
  \<^item> \<open>Mkdir path\<close>: \<open>path.mkdir(parents=True, exist_ok=True)\<close>;
  \<^item> \<open>Save path quality\<close>: \<open>im.save(path, quality=quality)\<close> into an existing directory.

  \<open>canvas.paste\<close> at integer coordinates returns.
\<close>

datatype call =
    Load string
  | Rectangle string box
  | Fit string "int \<times> int" "int \<times> int"
  | New "int \<times> int" string
  | Mkdir "string list"
  | Save "string list" "int option"

type_synonym library = "call \<Rightarrow> pyerr option"

text \<open>
  \<open>mkdir(parents=True, exist_ok=True)\<close> makes the directory with its parents, so a
  directory exists when it is, or lies above, one of \<open>dirs\<close>. \<open>save\<close> raises
  FileNotFoundError when the directory of the path does not exist, and writes the file
  otherwise, unless the library raises.
\<close>

definition mkdir :: "library \<Rightarrow> string list \<Rightarrow> fs \<Rightarrow> fs \<times> pyerr option" where
  "mkdir lib d st =
     (case lib (Mkdir d) of
        Some e \<Rightarrow> (st, Some e)
      | None \<Rightarrow> (st\<lparr>dirs := dirs st @ [d]\<rparr>, None))"

definition is_dir :: "fs \<Rightarrow> string list \<Rightarrow> bool" where
  "is_dir st d = (\<exists>p \<in> set (dirs st). take (length d) p = d)"

definition save ::
  "library \<Rightarrow> string list \<Rightarrow> string \<Rightarrow> content \<Rightarrow> int option \<Rightarrow> fs \<Rightarrow> fs \<times> pyerr option" where
  "save lib dir fname im q st =
     (if is_dir st dir
      then case lib (Save (dir @ [fname]) q) of
             Some e \<Rightarrow> (st, Some e)
           | None \<Rightarrow>
               (st\<lparr>files := files st @ [\<lparr>path = dir @ [fname], content = im, quality = q\<rparr>]\<rparr>,
                None)
      else (st, Some FileNotFoundError))"

section \<open>Compose mode\<close>

text \<open>
  \<^verbatim>\<open>
  if   ch > cw: orient = "vertical"
  elif cw > ch: orient = "horizontal"
  else:          orient = "square"
  \<close>
\<close>

definition orient_of :: "int \<Rightarrow> int \<Rightarrow> string" where
  "orient_of cw ch =
     (if ch > cw then ''vertical'' else if cw > ch then ''horizontal'' else ''square'')"

text \<open>
  The inner loop \<open>for col in range(rcount)\<close>: \<open>imgs[idx]\<close> raises IndexError when the
  images are used up, \<open>Image.open\<close> raises on an unreadable file, \<open>ImageOps.fit\<close> may
  raise, and each paste goes to \<open>(col * (cw_cell + gutter), y)\<close> with the image fitted to
  \<open>(cw_cell, rh)\<close>.
\<close>

fun paste_cols ::
  "library \<Rightarrow> image_file list \<Rightarrow> int \<Rightarrow> int \<Rightarrow> int \<Rightarrow> int \<Rightarrow> int list \<Rightarrow> nat \<Rightarrow> paste list
     \<Rightarrow> pyerr + (nat \<times> paste list)" where
  "paste_cols lib imgs cw_cell rh gutter y [] idx acc = Inr (idx, acc)"
| "paste_cols lib imgs cw_cell rh gutter y (col # cols) idx acc =
     (if length imgs \<le> idx then Inl IndexError
      else case snd (imgs ! idx) of
        None \<Rightarrow> Inl UnidentifiedImageError
      | Some sz \<Rightarrow>
          (case lib (Fit (fst (imgs ! idx)) sz (cw_cell, rh)) of
             Some e \<Rightarrow> Inl e
           | None \<Rightarrow>
               paste_cols lib imgs cw_cell rh gutter y cols (Suc idx)
                 (acc @ [\<lparr>img = fst (imgs ! idx), cell = (cw_cell, rh),
                          pos = (col * (cw_cell + gutter), y)\<rparr>])))"

text \<open>
  The outer loop \<open>for rcount in rows\<close>; \<open>rows\<close> is the whole pattern (for \<open>len(rows)\<close>),
  the next argument the rows still to do. \<open>// rcount\<close> raises on a zero column count.
\<close>

fun compose_rows ::
  "library \<Rightarrow> image_file list \<Rightarrow> int \<Rightarrow> int \<Rightarrow> int \<Rightarrow> int list \<Rightarrow> int list \<Rightarrow> int \<Rightarrow> nat
     \<Rightarrow> paste list \<Rightarrow> pyerr + paste list" where
  "compose_rows lib imgs cw ch gutter rows [] y idx acc = Inr acc"
| "compose_rows lib imgs cw ch gutter rows (rcount # rest) y idx acc =
     (let rh = (ch - gutter * (int (length rows) - 1)) div int (length rows)
      in if rcount = 0 then Inl ZeroDivisionError
         else
           let cw_cell = (cw - gutter * (rcount - 1)) div rcount
           in case paste_cols lib imgs cw_cell rh gutter y [0..rcount - 1] idx acc of
                Inl e \<Rightarrow> Inl e
              | Inr (idx', acc') \<Rightarrow>
                  compose_rows lib imgs cw ch gutter rows rest (y + rh + gutter) idx' acc')"

text \<open>
  The body of \<open>for prof in profiles\<close> in \<open>run_compose\<close>: the look-ups
  \<open>layouts[orient]\<close> and \<open>layout_cfg["patterns"][str(n)]\<close> raise KeyError, the directory is
  made before the canvas is created and filled, and the canvas is saved as
  \<open>compose_dir / f"{folder.name}_{tag}{sep}{cw}x{ch}.jpg"\<close> with \<open>quality=95\<close> last.
\<close>

definition compose_profile ::
  "library \<Rightarrow> args \<Rightarrow> config \<Rightarrow> string \<Rightarrow> image_file list \<Rightarrow> profile \<Rightarrow> fs
     \<Rightarrow> fs \<times> pyerr option" where
  "compose_profile lib a cfg folder imgs prof st =
     (let sep = (case separator_opt cfg of None \<Rightarrow> ''_'' | Some s \<Rightarrow> s);
          (cw, ch) = size_wh prof;
          orient = orient_of cw ch
      in case layouts cfg orient of
           None \<Rightarrow> (st, Some KeyError)
         | Some layout_cfg \<Rightarrow>
             let gutter = (case gutter_opt layout_cfg of None \<Rightarrow> 0 | Some g \<Rightarrow> g);
                 bg = (case bg_color_opt layout_cfg of None \<Rightarrow> ''#000000'' | Some c \<Rightarrow> c)
             in case patterns layout_cfg (str_nat (length imgs)) of
                  None \<Rightarrow> (st, Some KeyError)
                | Some rows \<Rightarrow>
                    (case mkdir lib [out_dir a, tag prof] st of
                       (st1, Some e) \<Rightarrow> (st1, Some e)
                     | (st1, None) \<Rightarrow>
                         (case lib (New (cw, ch) bg) of
                            Some e \<Rightarrow> (st1, Some e)
                          | None \<Rightarrow>
                              (case compose_rows lib imgs cw ch gutter rows rows 0 0 [] of
                                 Inl e \<Rightarrow> (st1, Some e)
                               | Inr ps \<Rightarrow>
                                   save lib [out_dir a, tag prof]
                                     (folder @ ''_'' @ tag prof @ sep @ str_int cw @ ''x'' @
                                      str_int ch @ ''.jpg'')
                                     (Composite (cw, ch) bg ps) (Some 95) st1))))"

fun compose_profiles ::
  "library \<Rightarrow> args \<Rightarrow> config \<Rightarrow> string \<Rightarrow> image_file list \<Rightarrow> profile list \<Rightarrow> fs
     \<Rightarrow> fs \<times> pyerr option" where
  "compose_profiles lib a cfg folder imgs [] st = (st, None)"
| "compose_profiles lib a cfg folder imgs (prof # ps) st =
     (case compose_profile lib a cfg folder imgs prof st of
        (st', Some e) \<Rightarrow> (st', Some e)
      | (st', None) \<Rightarrow> compose_profiles lib a cfg folder imgs ps st')"

text \<open>
  \<^verbatim>\<open>
  imgs = sorted(folder.glob("*.jpg"))
  n    = len(imgs)
  if n == 0:
      return
  \<close>
\<close>

definition glob_jpg :: "image_file list \<Rightarrow> image_file list" where
  "glob_jpg entries = sort_key fst (filter (\<lambda>e. glob_jpg_match (fst e)) entries)"

definition run_compose ::
  "library \<Rightarrow> args \<Rightarrow> config \<Rightarrow> string \<times> image_file list \<Rightarrow> fs \<Rightarrow> fs \<times> pyerr option" where
  "run_compose lib a cfg folder st =
     (let imgs = glob_jpg (snd folder);
          n = length imgs
      in if n = 0 then (st, None)
         else compose_profiles lib a cfg (fst folder) imgs (profiles cfg) st)"

section \<open>Single image batch mode\<close>

text \<open>
  \<^verbatim>\<open>
  def resize_and_save(im, dst, name, ext, sep, tag, tw, th, quality):
      im = im.resize((tw, th), Image.Resampling.LANCZOS)
      dst.mkdir(parents=True, exist_ok=True)
      fname = f"{name}{sep}{tag}{tw}x{th}{ext}"
      im.save(dst/fname, quality=quality)
  \<close>
  Its only caller hands it the result of \<open>ImageOps.fit(crop, (tw, th))\<close>, so the \<open>resize\<close>
  is to the size that the image already has.
\<close>

definition resize_and_save ::
  "library \<Rightarrow> content \<Rightarrow> string list \<Rightarrow> string \<Rightarrow> string \<Rightarrow> string \<Rightarrow> string \<Rightarrow> int \<Rightarrow> int \<Rightarrow> int
     \<Rightarrow> fs \<Rightarrow> fs \<times> pyerr option" where
  "resize_and_save lib im dst name ext sep tg tw th q st =
     (case mkdir lib dst st of
        (st1, Some e) \<Rightarrow> (st1, Some e)
      | (st1, None) \<Rightarrow>
          save lib dst (name @ sep @ tg @ str_int tw @ ''x'' @ str_int th @ ext) im (Some q) st1)"

text \<open>
  \<open>im.crop((l, t, r, b))\<close> raises ValueError when the right coordinate is less than the
  left one or the lower less than the upper one; then it loads the pixels of the file.
\<close>

definition im_crop :: "library \<Rightarrow> string \<Rightarrow> box \<Rightarrow> pyerr option" where
  "im_crop lib src bx =
     (case bx of (l, t, r, b) \<Rightarrow> if r < l \<or> b < t then Some ValueError else lib (Load src))"

text \<open>
  The body of \<open>for prof in profiles\<close> in \<open>run_batch\<close>:
  \<^verbatim>\<open>
  pad = prof.get("pad", default_pad)
  tag = prof["tag"];
  tw, th = map(int, prof["size"].split("x")); ratio = tw/th
  l, t, r, b = expand_aspect(*bbox, ratio, w, h, pad)
  crop = im.crop((l, t, r, b))
  crop = ImageOps.fit(crop, (tw, th), method=Image.Resampling.LANCZOS)
  resize_and_save(crop, out_root/ tag, stem, ext, sep, tag, tw, th, args.pad)
  \<close>
  The last argument of \<open>resize_and_save\<close>, its \<open>quality\<close>, is \<open>args.pad\<close>.
\<close>

definition batch_profile ::
  "library \<Rightarrow> args \<Rightarrow> config \<Rightarrow> string \<Rightarrow> int \<times> int \<Rightarrow> box \<Rightarrow> profile \<Rightarrow> fs
     \<Rightarrow> fs \<times> pyerr option" where
  "batch_profile lib a cfg src wh bbox prof st =
     (let sep = (case separator_opt cfg of None \<Rightarrow> ''_'' | Some s \<Rightarrow> s);
          default_pad = (case default_pad_opt cfg of None \<Rightarrow> arg_pad a | Some p \<Rightarrow> p);
          pad = (case pad_opt prof of None \<Rightarrow> default_pad | Some p \<Rightarrow> p);
          (tw, th) = size_wh prof;
          (w, h) = wh;
          (l, t, r, b) = bbox
      in case int_true_div tw th of
           Inl e \<Rightarrow> (st, Some e)
         | Inr ratio \<Rightarrow>
             (case expand_aspect l t r b ratio w h pad of
                Inl e \<Rightarrow> (st, Some e)
              | Inr crop \<Rightarrow>
                  (case im_crop lib src crop of
                     Some e \<Rightarrow> (st, Some e)
                   | None \<Rightarrow>
                       (case lib (Fit src (box_width crop, box_height crop) (tw, th)) of
                          Some e \<Rightarrow> (st, Some e)
                        | None \<Rightarrow>
                            resize_and_save lib (Crop src crop (tw, th)) [out_dir a, tag prof]
                              (path_stem src) (path_suffix src) sep (tag prof) tw th
                              (arg_pad a) st))))"

fun batch_profiles ::
  "library \<Rightarrow> args \<Rightarrow> config \<Rightarrow> string \<Rightarrow> int \<times> int \<Rightarrow> box \<Rightarrow> profile list \<Rightarrow> fs
     \<Rightarrow> fs \<times> pyerr option" where
  "batch_profiles lib a cfg src wh bbox [] st = (st, None)"
| "batch_profiles lib a cfg src wh bbox (prof # ps) st =
     (case batch_profile lib a cfg src wh bbox prof st of
        (st', Some e) \<Rightarrow> (st', Some e)
      | (st', None) \<Rightarrow> batch_profiles lib a cfg src wh bbox ps st')"

text \<open>
  The debug overlay:
  \<^verbatim>\<open>
  draw = ImageDraw.Draw(im); draw.rectangle(bbox, outline="red", width=3)
  debug_path = Path(args.out_dir)/f"debug_{src.stem}.jpg"; im.save(debug_path)
  \<close>
  \<open>ImageDraw.Draw\<close> loads the pixels. The overlay is saved without a \<open>quality\<close>
  argument, into \<open>out_dir\<close> itself, which no \<open>mkdir\<close> has made when the first image is
  processed.
\<close>

definition debug_overlay :: "library \<Rightarrow> args \<Rightarrow> string \<Rightarrow> box \<Rightarrow> fs \<Rightarrow> fs \<times> pyerr option" where
  "debug_overlay lib a src bbox st =
     (case lib (Load src) of
        Some e \<Rightarrow> (st, Some e)
      | None \<Rightarrow>
          (case lib (Rectangle src bbox) of
             Some e \<Rightarrow> (st, Some e)
           | None \<Rightarrow>
               save lib [out_dir a] (''debug_'' @ path_stem src @ ''.jpg'')
                 (DebugOverlay src bbox) None st))"

text \<open>
  The body of \<open>for src in tqdm(files)\<close>. \<open>detect\<close> stands for
  \<open>get_bbox_yolo(model, ...) if model else None\<close>; without the detector it is
  \<open>\<lambda>_. None\<close>. \<open>Image.open\<close> raises on a file it cannot read.
\<close>

definition batch_image ::
  "library \<Rightarrow> args \<Rightarrow> config \<Rightarrow> (string \<Rightarrow> box option) \<Rightarrow> image_file \<Rightarrow> fs
     \<Rightarrow> fs \<times> pyerr option" where
  "batch_image lib a cfg detect src st =
     (case snd src of
        None \<Rightarrow> (st, Some UnidentifiedImageError)
      | Some (w, h) \<Rightarrow>
          let bbox0 = (case detect (fst src) of
                         None \<Rightarrow> center_square w h (arg_pad a)
                       | Some bx \<Rightarrow> bx);
              area = box_width bbox0 * box_height bbox0;
              bbox = (if area < min_area a \<or>
                         (case max_area a of None \<Rightarrow> False | Some m \<Rightarrow> m \<noteq> 0 \<and> m < area)
                      then center_square w h (arg_pad a) else bbox0)
          in case (if debug a then debug_overlay lib a (fst src) bbox st else (st, None)) of
               (st1, Some e) \<Rightarrow> (st1, Some e)
             | (st1, None) \<Rightarrow> batch_profiles lib a cfg (fst src) (w, h) bbox (profiles cfg) st1)"

fun run_batch ::
  "library \<Rightarrow> args \<Rightarrow> config \<Rightarrow> (string \<Rightarrow> box option) \<Rightarrow> image_file list \<Rightarrow> fs
     \<Rightarrow> fs \<times> pyerr option" where
  "run_batch lib a cfg detect [] st = (st, None)"
| "run_batch lib a cfg detect (src # rest) st =
     (case batch_image lib a cfg detect src st of
        (st', Some e) \<Rightarrow> (st', Some e)
      | (st', None) \<Rightarrow> run_batch lib a cfg detect rest st')"

section \<open>The dispatcher\<close>

text \<open>
  \<^verbatim>\<open>
  for item in input_root.iterdir():
      if item.is_dir():
          folders.append(item)
      elif item.is_file() and item.suffix.lower() in [".jpg", ".jpeg", ".png"]:
          single.append(item)
  if single:
      run_batch(args, cfg, single)
  for folder in folders:
      run_compose(args, cfg, folder)
  \<close>
  An exception leaves every loop it is raised in: the result is what was written up to
  then, with the exception. The last argument is the state of the output tree before
  the run; on a fresh run, \<open>out_dir\<close> does not exist and it is
  \<open>\<lparr>dirs = [], files = []\<rparr>\<close>.
\<close>

fun classify :: "entry list \<Rightarrow> image_file list \<times> (string \<times> image_file list) list" where
  "classify [] = ([], [])"
| "classify (item # items) =
     (let (single, folders) = classify items
      in case item of
           Dir name es \<Rightarrow> (single, (name, es) # folders)
         | File name im \<Rightarrow>
             if is_image_suffix name then ((name, im) # single, folders) else (single, folders)
         | Other name \<Rightarrow> (single, folders))"

fun compose_folders ::
  "library \<Rightarrow> args \<Rightarrow> config \<Rightarrow> (string \<times> image_file list) list \<Rightarrow> fs \<Rightarrow> fs \<times> pyerr option" where
  "compose_folders lib a cfg [] st = (st, None)"
| "compose_folders lib a cfg (folder # rest) st =
     (case run_compose lib a cfg folder st of
        (st', Some e) \<Rightarrow> (st', Some e)
      | (st', None) \<Rightarrow> compose_folders lib a cfg rest st')"

definition process ::
  "library \<Rightarrow> args \<Rightarrow> config \<Rightarrow> (string \<Rightarrow> box option) \<Rightarrow> entry list \<Rightarrow> fs
     \<Rightarrow> fs \<times> pyerr option" where
  "process lib a cfg detect items st0 =
     (let (single, folders) = classify items
      in case (if single \<noteq> [] then run_batch lib a cfg detect single st0 else (st0, None)) of
           (st, Some e) \<Rightarrow> (st, Some e)
         | (st, None) \<Rightarrow> compose_folders lib a cfg folders st)"

section \<open>Predicates and scenarios of the properties\<close>

text \<open>A library none of whose calls raises.\<close>

definition no_failure :: library where
  "no_failure = (\<lambda>c. None)"

text \<open>
  The scenario of a square 800x800 profile whose layout has gutter 10 and the pattern
  \<open>"4": {"rows": [2, 2]}\<close>.
\<close>

definition square_scenario :: config where
  "square_scenario =
     \<lparr>profiles = [\<lparr>tag = ''sq'', size_wh = (800, 800), pad_opt = None\<rparr>],
      separator_opt = None, default_pad_opt = None,
      layouts = [''square'' \<mapsto>
        \<lparr>gutter_opt = Some 10, bg_color_opt = None, patterns = [''4'' \<mapsto> [2, 2]]\<rparr>]\<rparr>"



text \<open>
  What identifies a saved crop: the directory it is saved in, the source image, the
  target size and the \<open>quality\<close> it is saved with; likewise for a saved composite.
\<close>

definition saved_crop :: "artifact \<Rightarrow> (string list \<times> string \<times> (int \<times> int) \<times> int option) option" where
  "saved_crop art =
     (case content art of
        Crop src bx sz \<Rightarrow> Some (butlast (path art), src, sz, quality art)
      | DebugOverlay src bx \<Rightarrow> None
      | Composite sz bg ps \<Rightarrow> None)"

definition saved_composite :: "artifact \<Rightarrow> (string list \<times> (int \<times> int) \<times> int option) option" where
  "saved_composite art =
     (case content art of
        Crop src bx sz \<Rightarrow> None
      | DebugOverlay src bx \<Rightarrow> None
      | Composite sz bg ps \<Rightarrow> Some (butlast (path art), sz, quality art))"

text \<open>
  What \<open>run_batch\<close> and \<open>run_compose\<close> may save: a crop with the \<open>--pad\<close> argument as
  \<open>quality\<close> or a debug overlay without \<open>quality\<close>; a composite with \<open>quality\<close> 95.
\<close>

definition batch_saved :: "args \<Rightarrow> artifact \<Rightarrow> bool" where
  "batch_saved a art =
     (case content art of
        Crop src bx sz \<Rightarrow> quality art = Some (arg_pad a)
      | DebugOverlay src bx \<Rightarrow> quality art = None
      | Composite sz bg ps \<Rightarrow> False)"

definition compose_saved :: "artifact \<Rightarrow> bool" where
  "compose_saved art =
     (case content art of
        Crop src bx sz \<Rightarrow> False
      | DebugOverlay src bx \<Rightarrow> False
      | Composite sz bg ps \<Rightarrow> quality art = Some 95)"

text \<open>A configuration with one 100x100 profile whose own pad is 10.\<close>

definition one_profile :: config where
  "one_profile =
     \<lparr>profiles = [\<lparr>tag = ''thumb'', size_wh = (100, 100), pad_opt = Some 10\<rparr>],
      separator_opt = None, default_pad_opt = None, layouts = Map.empty\<rparr>"

text \<open>
  The exponent that \<open>b64\<close> rounds at, a finite double, and the distance in pixels of a
  box from a target ratio: by how much its width misses \<open>height * ratio\<close>, and its height
  \<open>width / ratio\<close>.
\<close>

definition fexp :: "rat \<Rightarrow> int" where
  "fexp x = max (ilog2 \<bar>x\<bar>) (- 1022)"

definition is_double :: "rat \<Rightarrow> bool" where
  "is_double v = (b64 v = v \<and> \<not> overflows v)"

definition width_error :: "box \<Rightarrow> rat \<Rightarrow> rat" where
  "width_error bx ratio =
     (case bx of (l, t, r, b) \<Rightarrow> \<bar>of_int (r - l) - of_int (b - t) * ratio\<bar>)"

definition height_error :: "box \<Rightarrow> rat \<Rightarrow> rat" where
  "height_error bx ratio =
     (case bx of (l, t, r, b) \<Rightarrow> \<bar>of_int (b - t) - of_int (r - l) / ratio\<bar>)"

text \<open>
  The \<open>else\<close> branch of \<open>expand_aspect\<close>, taken with a quotient \<open>int(bw / ratio)\<close> that the
  floating-point division leaves below the height \<open>bh\<close> of the box.
\<close>

definition slips :: "int \<Rightarrow> int \<Rightarrow> int \<Rightarrow> int \<Rightarrow> rat \<Rightarrow> bool" where
  "slips l t r b ratio =
     (\<not> b64 (of_int (r - l) / of_int (b - t)) < ratio \<and>
      \<lfloor>b64 (of_int (r - l) / ratio)\<rfloor> < b - t)"

definition box_contains :: "box \<Rightarrow> box \<Rightarrow> bool" where
  "box_contains outer inner =
     (case outer of (lo, to, ro, bo) \<Rightarrow>
        case inner of (li, ti, ri, bi) \<Rightarrow> lo \<le> li \<and> to \<le> ti \<and> ri \<le> ro \<and> bi \<le> bo)"

text \<open>A configuration with one 900x700 profile without pad.\<close>

definition web_profile :: config where
  "web_profile =
     \<lparr>profiles = [\<lparr>tag = ''web'', size_wh = (900, 700), pad_opt = Some 0\<rparr>],
      separator_opt = None, default_pad_opt = None, layouts = Map.empty\<rparr>"

section \<open>The centred square\<close>

text \<open>
  C3, as stated, for every \<open>pad\<close>: a negative \<open>pad\<close> passes the guard
  \<open>min w h - 2 * pad > 0\<close> and gives a square larger than the image.
\<close>

theorem center_square_negative_pad_escapes:
  "0 < min (10::int) 10 - 2 * (-5) \<and>
   center_square 10 10 (-5) = (-5, -5, 15, 15) \<and>
   \<not> within_image (center_square 10 10 (-5)) 10 10"
  by (simp add: center_square_def within_image_def)

text \<open>
  C3, amended: for a non-negative \<open>pad\<close> with \<open>min w h - 2 * pad > 0\<close> the centred
  square has width and height \<open>min w h - 2 * pad\<close> and lies inside \<open>[0,w] \<times> [0,h]\<close>.
\<close>

theorem center_square_extents_within:
  assumes "0 \<le> pad" and "0 < min w h - 2 * pad"
  shows "box_width (center_square w h pad) = min w h - 2 * pad \<and>
         box_height (center_square w h pad) = min w h - 2 * pad \<and>
         within_image (center_square w h pad) w h"
proof -
  define side where "side = min w h - 2 * pad"
  have sw: "side \<le> w" and sh: "side \<le> h"
    using assms(1) by (simp_all add: side_def)
  have l0: "0 \<le> (w - side) div 2" and t0: "0 \<le> (h - side) div 2"
    using sw sh by simp_all
  have lr: "(w - side) div 2 + side \<le> w" and tb: "(h - side) div 2 + side \<le> h"
    using sw sh by linarith+
  show ?thesis
    using l0 t0 lr tb
    by (simp add: center_square_def Let_def box_width_def box_height_def within_image_def
        side_def [symmetric])
qed

theorem center_square_extents_within_witness:
  "(0::int) \<le> 40 \<and> 0 < min (1000::int) 800 - 2 * 40 \<and>
   center_square 1000 800 40 = (140, 40, 860, 760) \<and>
   box_width (center_square 1000 800 40) = 720 \<and>
   box_height (center_square 1000 800 40) = 720 \<and>
   within_image (center_square 1000 800 40) 1000 800"
  using center_square_extents_within [of 40 1000 800]
  by (simp add: center_square_def)

section \<open>Rounding to a double\<close>

lemma round_half_even_bounds:
  "\<bar>of_int (round_half_even x) - x\<bar> \<le> 1 / 2"
proof -
  have "of_int \<lfloor>x\<rfloor> \<le> x" "x < of_int \<lfloor>x\<rfloor> + 1" by linarith+
  then show ?thesis
    by (auto simp: round_half_even_def Let_def)
qed

lemma round_half_even_of_int [simp]: "round_half_even (of_int n) = n"
  by (simp add: round_half_even_def)

lemma round_half_even_mono:
  assumes "x \<le> y"
  shows "round_half_even x \<le> round_half_even y"
proof (rule ccontr)
  assume "\<not> ?thesis"
  then have gt: "round_half_even y + 1 \<le> round_half_even x" by simp
  then have gt': "(of_int (round_half_even y) :: rat) + 1 \<le> of_int (round_half_even x)"
    by (metis of_int_1 of_int_add of_int_le_iff)
  have bx: "\<bar>of_int (round_half_even x) - x\<bar> \<le> 1 / 2"
    and "by": "\<bar>of_int (round_half_even y) - y\<bar> \<le> 1 / 2"
    by (rule round_half_even_bounds)+
  from bx "by" gt' assms have eq: "x = y" by linarith
  with gt show False by simp
qed

lemma round_half_even_ge_int:
  "of_int n \<le> x \<Longrightarrow> n \<le> round_half_even x"
  using round_half_even_mono [of "of_int n" x] by simp

lemma round_half_even_le_int:
  "x \<le> of_int n \<Longrightarrow> round_half_even x \<le> n"
  using round_half_even_mono [of x "of_int n"] by simp

lemma ilog2_bounds:
  assumes "0 < x"
  shows "2 powi (ilog2 x) \<le> x \<and> x < 2 powi (ilog2 x + 1)"
proof -
  obtain a b where q: "quotient_of x = (a, b)" by (cases "quotient_of x")
  then have b: "0 < b" and x: "x = of_int a / of_int b"
    using quotient_of_denom_pos quotient_of_div by blast+
  from assms x b have a: "0 < a" by (simp add: zero_less_divide_iff)
  define ka kb where "ka = bitlen a" and "kb = bitlen b"
  from a b have ka1: "1 \<le> ka" and kb1: "1 \<le> kb"
    by (auto simp: ka_def kb_def bitlen_alt_def)
  from bitlen_bounds [OF a] have al: "2 ^ nat (ka - 1) \<le> a" and au: "a < 2 ^ nat ka"
    by (simp_all add: ka_def)
  from bitlen_bounds [OF b] have bl: "2 ^ nat (kb - 1) \<le> b" and bu: "b < 2 ^ nat kb"
    by (simp_all add: kb_def)
  have p1: "(2::rat) powi (ka - 1) = of_int (2 ^ nat (ka - 1))"
    and p2: "(2::rat) powi ka = of_int (2 ^ nat ka)"
    and p3: "(2::rat) powi (kb - 1) = of_int (2 ^ nat (kb - 1))"
    and p4: "(2::rat) powi kb = of_int (2 ^ nat kb)"
    using ka1 kb1 by (simp_all add: power_int_def)
  have al': "(2::rat) powi (ka - 1) \<le> of_int a"
    unfolding p1 using al by (simp only: of_int_le_iff)
  have au': "of_int a < (2::rat) powi ka"
    unfolding p2 using au by (simp only: of_int_less_iff)
  have bl': "(2::rat) powi (kb - 1) \<le> of_int b"
    unfolding p3 using bl by (simp only: of_int_le_iff)
  have bu': "of_int b < (2::rat) powi kb"
    unfolding p4 using bu by (simp only: of_int_less_iff)
  have apos: "(0::rat) < of_int a" and bpos: "(0::rat) < of_int b" using a b by simp_all
  have up: "x < 2 powi (ka - kb + 1)"
  proof -
    have "of_int a * (2::rat) powi (kb - 1) < 2 powi ka * of_int b"
      by (rule mult_less_le_imp_less [OF au' bl']) (use apos in simp_all)
    then have "x < 2 powi ka / 2 powi (kb - 1)"
      unfolding x using bpos by (simp add: field_simps)
    also have "\<dots> = 2 powi (ka - kb + 1)"
      by (simp add: power_int_diff [symmetric] algebra_simps)
    finally show ?thesis .
  qed
  have lo: "2 powi (ka - kb - 1) < x"
  proof -
    have "(2::rat) powi (ka - 1) * of_int b < of_int a * 2 powi kb"
      by (rule mult_le_less_imp_less [OF al' bu']) (use bpos in simp_all)
    then have "2 powi (ka - 1) / 2 powi kb < x"
      unfolding x using bpos by (simp add: field_simps)
    moreover have "(2::rat) powi (ka - 1) / 2 powi kb = 2 powi (ka - kb - 1)"
      by (simp add: power_int_diff [symmetric] algebra_simps)
    ultimately show ?thesis by simp
  qed
  show ?thesis
  proof (cases "2 powi (ka - kb) \<le> x")
    case True
    then have "ilog2 x = ka - kb" by (simp add: ilog2_def q ka_def kb_def)
    with True up show ?thesis by simp
  next
    case False
    then have "ilog2 x = ka - kb - 1" by (simp add: ilog2_def q ka_def kb_def)
    with False lo show ?thesis by simp
  qed
qed


lemma pow2_less_imp:
  assumes "(2::rat) powi m < 2 powi n"
  shows "m < n"
proof (rule ccontr)
  assume "\<not> m < n"
  then have "(2::rat) powi n \<le> 2 powi m"
    by (intro power_int_increasing) simp_all
  with assms show False by simp
qed

lemma pow2_mult: "(2::rat) powi a * 2 powi b = 2 powi (a + b)"
  by (simp add: power_int_add)

lemma pow2_div: "(2::rat) powi a / 2 powi b = 2 powi (a - b)"
  by (simp add: power_int_diff)

lemma pow2_pos: "(0::rat) < 2 powi k"
  by simp

lemma ilog2_mono:
  assumes "0 < x" and "x \<le> y"
  shows "ilog2 x \<le> ilog2 y"
proof -
  from assms have y: "0 < y" by simp
  from ilog2_bounds [OF assms(1)] ilog2_bounds [OF y] assms(2)
  have "(2::rat) powi (ilog2 x) < 2 powi (ilog2 y + 1)" by linarith
  then have "ilog2 x < ilog2 y + 1" by (rule pow2_less_imp)
  then show ?thesis by simp
qed

lemma ilog2_ge:
  assumes "(2::rat) powi k \<le> x"
  shows "k \<le> ilog2 x"
proof -
  have x: "0 < x" using assms pow2_pos [of k] by linarith
  from ilog2_bounds [OF x] assms have "(2::rat) powi k < 2 powi (ilog2 x + 1)" by linarith
  then have "k < ilog2 x + 1" by (rule pow2_less_imp)
  then show ?thesis by simp
qed

lemma ilog2_less:
  assumes "0 < x" and "x < (2::rat) powi k"
  shows "ilog2 x < k"
proof -
  from ilog2_bounds [OF assms(1)] assms(2) have "(2::rat) powi (ilog2 x) < 2 powi k" by linarith
  then show ?thesis by (rule pow2_less_imp)
qed

lemma b64_pos:
  assumes "0 < x"
  shows "b64 x = of_int (round_half_even (x / 2 powi (fexp x - 52))) * 2 powi (fexp x - 52)"
  using assms by (simp add: b64_def fexp_def Let_def)

lemma fexp_upper:
  assumes "0 < x"
  shows "x < 2 powi (fexp x + 1)"
proof -
  have "ilog2 x \<le> fexp x" using assms by (simp add: fexp_def)
  then have "(2::rat) powi (ilog2 x + 1) \<le> 2 powi (fexp x + 1)"
    by (intro power_int_increasing) simp_all
  with ilog2_bounds [OF assms] show ?thesis by linarith
qed

lemma b64_nonneg:
  assumes "0 \<le> x"
  shows "0 \<le> b64 x"
proof (cases "x = 0")
  case True
  then show ?thesis by (simp add: b64_def)
next
  case False
  with assms have x: "0 < x" by simp
  have "0 \<le> x / 2 powi (fexp x - 52)" using x by simp
  then have "0 \<le> round_half_even (x / 2 powi (fexp x - 52))"
    using round_half_even_ge_int [of 0] by simp
  then show ?thesis unfolding b64_pos [OF x] by simp
qed

lemma b64_nonpos:
  assumes "x \<le> 0"
  shows "b64 x \<le> 0"
proof (cases "x = 0")
  case True
  then show ?thesis by (simp add: b64_def)
next
  case False
  with assms have x: "x < 0" by simp
  define q :: rat where "q = 2 powi (max (ilog2 \<bar>x\<bar>) (- 1022) - 52)"
  have q: "0 < q" by (simp add: q_def)
  have "x / q \<le> 0" using x q by (simp add: divide_nonpos_pos)
  then have "round_half_even (x / q) \<le> 0"
    using round_half_even_le_int [of _ 0] by simp
  then have "of_int (round_half_even (x / q)) * q \<le> 0"
    using q by (simp add: mult_nonpos_nonneg)
  then show ?thesis using False by (simp add: b64_def Let_def q_def)
qed

lemma scaled_round_le:
  assumes "0 < q" and "x / q \<le> of_int n"
  shows "of_int (round_half_even (x / q)) * q \<le> of_int n * q"
proof -
  from assms(2) have "round_half_even (x / q) \<le> n" by (rule round_half_even_le_int)
  then have "(of_int (round_half_even (x / q)) :: rat) \<le> of_int n"
    by (simp only: of_int_le_iff)
  then show ?thesis using assms(1) by (simp only: mult_le_cancel_right_pos)
qed

lemma scaled_round_ge:
  assumes "0 < q" and "of_int n \<le> x / q"
  shows "of_int n * q \<le> of_int (round_half_even (x / q)) * q"
proof -
  from assms(2) have "n \<le> round_half_even (x / q)" by (rule round_half_even_ge_int)
  then have "(of_int n :: rat) \<le> of_int (round_half_even (x / q))"
    by (simp only: of_int_le_iff)
  then show ?thesis using assms(1) by (simp only: mult_le_cancel_right_pos)
qed

lemma b64_le_pow:
  assumes "0 < x"
  shows "b64 x \<le> 2 powi (fexp x + 1)"
proof -
  define q :: rat where "q = 2 powi (fexp x - 52)"
  have q: "0 < q" by (simp add: q_def)
  have e1: "(of_int (2 ^ 53) :: rat) = 2 powi 53" by simp
  have e2: "(2::rat) powi 53 * q = 2 powi (fexp x + 1)"
    unfolding q_def pow2_mult by (rule arg_cong [where f = "\<lambda>k. 2 powi k"]) simp
  have "x < 2 powi 53 * q" unfolding e2 by (rule fexp_upper [OF assms])
  then have "x / q \<le> of_int (2 ^ 53)"
    unfolding e1 using q by (simp add: pos_divide_le_eq)
  from scaled_round_le [OF q this] show ?thesis
    unfolding b64_pos [OF assms] q_def [symmetric] e1 e2 .
qed

lemma b64_ge_pow:
  assumes "0 < x" and "- 1022 \<le> ilog2 x"
  shows "2 powi (ilog2 x) \<le> b64 x"
proof -
  have fe: "fexp x = ilog2 x" using assms by (simp add: fexp_def)
  define q :: rat where "q = 2 powi (fexp x - 52)"
  have q: "0 < q" by (simp add: q_def)
  have e1: "(of_int (2 ^ 52) :: rat) = 2 powi 52" by simp
  have e2: "(2::rat) powi 52 * q = 2 powi (ilog2 x)"
    unfolding q_def pow2_mult by (rule arg_cong [where f = "\<lambda>k. 2 powi k"]) (simp add: fe)
  have "2 powi 52 * q \<le> x" unfolding e2 using ilog2_bounds [OF assms(1)] by simp
  then have "of_int (2 ^ 52) \<le> x / q"
    unfolding e1 using q by (simp add: pos_le_divide_eq)
  from scaled_round_ge [OF q this] show ?thesis
    unfolding b64_pos [OF assms(1)] q_def [symmetric] e1 e2 .
qed

lemma b64_mono_pos:
  assumes "0 < x" and "x \<le> y"
  shows "b64 x \<le> b64 y"
proof -
  from assms have y: "0 < y" by simp
  have le: "fexp x \<le> fexp y"
    using ilog2_mono [OF assms] assms y by (simp add: fexp_def)
  show ?thesis
  proof (cases "fexp x = fexp y")
    case True
    define q :: rat where "q = 2 powi (fexp y - 52)"
    have q: "0 < q" by (simp add: q_def)
    have "x / q \<le> y / q" using assms(2) q by (simp add: divide_right_mono)
    then have "round_half_even (x / q) \<le> round_half_even (y / q)"
      by (rule round_half_even_mono)
    then have "(of_int (round_half_even (x / q)) :: rat) \<le> of_int (round_half_even (y / q))"
      by (simp only: of_int_le_iff)
    then have "of_int (round_half_even (x / q)) * q \<le> of_int (round_half_even (y / q)) * q"
      using q by (simp only: mult_le_cancel_right_pos)
    then show ?thesis
      unfolding b64_pos [OF assms(1)] b64_pos [OF y] True q_def .
  next
    case False
    with le have lt: "fexp x + 1 \<le> fexp y" by simp
    then have "- 1022 < fexp y" by (simp add: fexp_def)
    then have fy: "fexp y = ilog2 y" "- 1022 \<le> ilog2 y"
      using y by (simp_all add: fexp_def max_def split: if_splits)
    have "b64 x \<le> 2 powi (fexp x + 1)" by (rule b64_le_pow [OF assms(1)])
    also have "\<dots> \<le> 2 powi (fexp y)" using lt by (intro power_int_increasing) simp_all
    also have "\<dots> \<le> b64 y" using b64_ge_pow [OF y fy(2)] fy(1) by simp
    finally show ?thesis .
  qed
qed

lemma round_half_even_minus: "round_half_even (- x) = - round_half_even x"
proof (cases "x = of_int \<lfloor>x\<rfloor>")
  case True
  then obtain n where "x = of_int n" ..
  then have "- x = of_int (- n)" by simp
  then show ?thesis unfolding \<open>x = of_int n\<close>
    by (simp only: round_half_even_of_int)
next
  case False
  define f where "f = \<lfloor>x\<rfloor>"
  have le: "of_int f \<le> x" and hi: "x < of_int f + 1"
    unfolding f_def by linarith+
  from False have "of_int f \<noteq> x" unfolding f_def by (rule not_sym)
  with le have lo: "of_int f < x" by (rule le_neq_trans)
  have fl: "\<lfloor>- x\<rfloor> = - f - 1"
    by (rule floor_unique) (use lo hi in simp_all)
  show ?thesis
    unfolding round_half_even_def Let_def fl f_def [symmetric]
    using lo hi by (auto simp: field_simps)
qed

lemma b64_minus: "b64 (- x) = - b64 x"
  by (simp add: b64_def Let_def round_half_even_minus)

lemma b64_mono:
  assumes "x \<le> y"
  shows "b64 x \<le> b64 y"
proof (cases "0 < x")
  case True
  then show ?thesis using assms by (rule b64_mono_pos)
next
  case False
  then have x: "x \<le> 0" by simp
  show ?thesis
  proof (cases "0 \<le> y")
    case True
    from b64_nonpos [OF x] b64_nonneg [OF True] show ?thesis by simp
  next
    case False
    then have "0 < - y" "- y \<le> - x" using assms by simp_all
    then have "b64 (- y) \<le> b64 (- x)" by (rule b64_mono_pos)
    then show ?thesis by (simp add: b64_minus)
  qed
qed

lemma b64_exact:
  assumes "0 < x" and "x = of_int m * 2 powi (fexp x - 52)"
  shows "b64 x = x"
proof -
  define q :: rat where "q = 2 powi (fexp x - 52)"
  have q: "q \<noteq> 0" by (simp add: q_def)
  have "x / q = of_int m" using assms(2) q unfolding q_def [symmetric] by simp
  then have "round_half_even (x / q) = m" by simp
  then show ?thesis
    unfolding b64_pos [OF assms(1)] q_def [symmetric] using assms(2)
    by (simp add: q_def)
qed

lemma b64_of_int_pos:
  assumes "0 < n" and "n \<le> 2 ^ 53"
  shows "b64 (of_int n) = of_int n"
proof -
  define x :: rat where "x = of_int n"
  have x: "0 < x" using assms(1) by (simp add: x_def)
  have "(2::rat) powi 0 \<le> x" using assms(1) by (simp add: x_def)
  then have e0: "0 \<le> ilog2 x" by (rule ilog2_ge)
  then have fe: "fexp x = ilog2 x" using x by (simp add: fexp_def)
  have xle: "x \<le> 2 powi 53"
  proof -
    have "(of_int n :: rat) \<le> of_int (2 ^ 53)" using assms(2) by (simp only: of_int_le_iff)
    then show ?thesis by (simp add: x_def)
  qed
  have "x < 2 powi 54" using xle by simp
  with x have "ilog2 x < 54" by (rule ilog2_less)
  then have e53: "ilog2 x \<le> 53" by simp
  show ?thesis
  proof (cases "ilog2 x = 53")
    case True
    then have "(2::rat) powi 53 \<le> x" using ilog2_bounds [OF x] by simp
    with xle have x53: "x = 2 powi 53" by simp
    have q2: "(2::rat) powi (fexp x - 52) = 2" using fe True by simp
    have "x = of_int (2 ^ 52) * 2 powi (fexp x - 52)"
      unfolding q2 using x53 by simp
    from b64_exact [OF x this] show ?thesis by (simp add: x_def)
  next
    case False
    with e53 have le: "ilog2 x \<le> 52" by simp
    define k where "k = nat (52 - ilog2 x)"
    have "(2::rat) powi (ilog2 x - 52) = 1 / 2 ^ k"
      using le by (simp add: power_int_def k_def field_simps)
    then have "x = of_int (n * 2 ^ k) * 2 powi (fexp x - 52)"
      unfolding fe by (simp add: x_def)
    from b64_exact [OF x this] show ?thesis by (simp add: x_def)
  qed
qed

lemma b64_of_int:
  assumes "\<bar>n\<bar> \<le> 2 ^ 53"
  shows "b64 (of_int n) = of_int n"
proof -
  consider "n = 0" | "0 < n" | "n < 0" by linarith
  then show ?thesis
  proof cases
    case 1
    then show ?thesis by (simp add: b64_def)
  next
    case 2
    with assms show ?thesis by (intro b64_of_int_pos) simp_all
  next
    case 3
    with assms have "b64 (of_int (- n)) = of_int (- n)" by (intro b64_of_int_pos) simp_all
    then show ?thesis by (simp add: b64_minus)
  qed
qed

lemma b64_abs_error:
  assumes "0 < x" and "- 1022 \<le> ilog2 x"
  shows "\<bar>b64 x - x\<bar> \<le> x / 2 ^ 53"
proof -
  have fe: "fexp x = ilog2 x" using assms by (simp add: fexp_def)
  define q :: rat where "q = 2 powi (fexp x - 52)"
  have q: "0 < q" by (simp add: q_def)
  define y where "y = x / q"
  have xy: "x = y * q" using q by (simp add: y_def)
  have "\<bar>of_int (round_half_even y) - y\<bar> \<le> 1 / 2" by (rule round_half_even_bounds)
  then have "\<bar>of_int (round_half_even y) - y\<bar> * q \<le> 1 / 2 * q"
    using q by (simp only: mult_le_cancel_right_pos)
  moreover have "\<bar>of_int (round_half_even y) - y\<bar> * q = \<bar>b64 x - x\<bar>"
  proof -
    have "b64 x - x = (of_int (round_half_even y) - y) * q"
      unfolding b64_pos [OF assms(1)] q_def [symmetric] y_def [symmetric]
      by (simp add: xy algebra_simps)
    then show ?thesis using q by (simp add: abs_mult)
  qed
  moreover have "1 / 2 * q \<le> x / 2 ^ 53"
  proof -
    have "(2::rat) powi 52 * q = 2 powi (ilog2 x)"
      unfolding q_def pow2_mult by (rule arg_cong [where f = "\<lambda>k. 2 powi k"]) (simp add: fe)
    with ilog2_bounds [OF assms(1)] have "(2::rat) powi 52 * q \<le> x" by simp
    then have "(2::rat) ^ 52 * q \<le> x" by simp
    then show ?thesis by (simp add: field_simps)
  qed
  ultimately show ?thesis by linarith
qed

lemma b64_abs_le:
  assumes "\<bar>x\<bar> \<le> of_int n" and "n \<le> 2 ^ 53"
  shows "\<bar>b64 x\<bar> \<le> of_int n"
proof -
  have "(0::rat) \<le> of_int n" using assms(1) abs_ge_zero [of x] by linarith
  then have n0: "0 \<le> n" by (simp only: of_int_0_le_iff)
  with assms(2) have n: "\<bar>n\<bar> \<le> 2 ^ 53" by simp
  from assms(1) have "x \<le> of_int n" "of_int (- n) \<le> x" by simp_all
  then have "b64 x \<le> b64 (of_int n)" "b64 (of_int (- n)) \<le> b64 x"
    by (simp_all only: b64_mono)
  moreover have "b64 (of_int n) = of_int n" by (rule b64_of_int [OF n])
  moreover have "b64 (of_int (- n)) = of_int (- n)" using n by (intro b64_of_int) simp
  ultimately show ?thesis by simp
qed

lemma not_overflows_small:
  assumes "\<bar>v\<bar> \<le> 2 ^ 53"
  shows "\<not> overflows v"
  using assms by (simp add: overflows_def)

lemma int_true_div_in_range:
  assumes "bh \<noteq> 0" and "\<bar>bw\<bar> \<le> 2 ^ 53"
  shows "int_true_div bw bh = Inr (b64 (of_int bw / of_int bh))"
proof -
  have "\<bar>(of_int bw :: rat) / of_int bh\<bar> \<le> \<bar>of_int bw\<bar>"
  proof -
    have "1 \<le> \<bar>bh\<bar>" using assms(1) by simp
    then have "(1::rat) \<le> \<bar>of_int bh\<bar>" by (metis of_int_1_le_iff of_int_abs)
    then have "\<bar>of_int bw\<bar> * 1 \<le> \<bar>of_int bw\<bar> * \<bar>(of_int bh :: rat)\<bar>"
      by (intro mult_left_mono) simp_all
    then show ?thesis using assms(1) by (simp add: field_simps)
  qed
  also have "\<dots> = of_int \<bar>bw\<bar>" by simp
  finally have "\<bar>b64 (of_int bw / of_int bh)\<bar> \<le> of_int \<bar>bw\<bar>"
    using assms(2) by (intro b64_abs_le) simp_all
  also have "(of_int \<bar>bw\<bar> :: rat) \<le> of_int (2 ^ 53)"
    using assms(2) by (simp only: of_int_le_iff)
  finally have "\<not> overflows (b64 (of_int bw / of_int bh))"
    by (intro not_overflows_small) simp
  then show ?thesis using assms(1) by (simp add: int_true_div_def Let_def)
qed

lemma float_of_int_in_range:
  assumes "\<bar>n\<bar> \<le> 2 ^ 53"
  shows "float_of_int n = Inr (of_int n)"
proof -
  have "(\<bar>of_int n\<bar> :: rat) = of_int \<bar>n\<bar>" by simp
  also have "\<dots> \<le> of_int (2 ^ 53)" using assms by (simp only: of_int_le_iff)
  finally have "\<not> overflows (of_int n)" by (intro not_overflows_small) simp
  then show ?thesis by (simp add: float_of_int_def b64_of_int [OF assms])
qed

lemma py_int_b64_in_range:
  assumes "0 \<le> x" and "x < 2 ^ 53"
  shows "py_int (b64 x) = Inr \<lfloor>b64 x\<rfloor> \<and> \<lfloor>x\<rfloor> \<le> \<lfloor>b64 x\<rfloor> \<and> \<lfloor>b64 x\<rfloor> \<le> \<lfloor>x\<rfloor> + 1"
proof -
  define n where "n = \<lfloor>x\<rfloor>"
  have n0: "0 \<le> n" using assms(1) by (simp add: n_def)
  have nx: "of_int n \<le> x" and xn: "x \<le> of_int (n + 1)" unfolding n_def by linarith+
  have "x < of_int (2 ^ 53)" using assms(2) by simp
  then have "n < 2 ^ 53" unfolding n_def by (simp only: floor_less_iff)
  then have n1: "\<bar>n\<bar> \<le> 2 ^ 53" "\<bar>n + 1\<bar> \<le> 2 ^ 53" using n0 by simp_all
  have lo: "of_int n \<le> b64 x"
    using b64_mono [OF nx] b64_of_int [OF n1(1)] by simp
  have hi: "b64 x \<le> of_int (n + 1)"
    using b64_mono [OF xn] b64_of_int [OF n1(2)] by simp
  have f1: "n \<le> \<lfloor>b64 x\<rfloor>" using lo by (simp only: le_floor_iff)
  have f2: "\<lfloor>b64 x\<rfloor> \<le> n + 1" using floor_mono [OF hi] by (simp only: floor_of_int)
  have nn: "0 \<le> b64 x" by (rule b64_nonneg [OF assms(1)])
  have "\<bar>b64 x\<bar> \<le> of_int (n + 1)" using nn hi by simp
  also have "(of_int (n + 1) :: rat) \<le> of_int (2 ^ 53)"
    using \<open>n < 2 ^ 53\<close> by (simp only: of_int_le_iff)
  finally have "\<not> overflows (b64 x)" by (intro not_overflows_small) simp
  then show ?thesis using nn f1 f2 by (simp add: py_int_def n_def)
qed

lemma half_step:
  fixes nw bw :: int
  shows "nw - 1 \<le> bw + 2 * ((nw - bw) div 2) \<and> bw + 2 * ((nw - bw) div 2) \<le> nw"
  by presburger

lemma product_in_range:
  fixes ratio :: rat
  assumes "0 < bh" and "bh \<le> 2 ^ 26" and "0 < ratio" and "ratio \<le> 2 ^ 26"
  shows "0 \<le> of_int bh * ratio \<and> of_int bh * ratio < 2 ^ 53"
proof -
  define c :: rat where "c = 2 ^ 26"
  have c: "0 < c" "c * c < 2 ^ 53" by (simp_all add: c_def)
  have "(of_int bh :: rat) \<le> of_int (2 ^ 26)"
    using assms(2) by (simp only: of_int_le_iff)
  then have b: "(of_int bh :: rat) \<le> c" by (simp add: c_def)
  have b0: "(0::rat) < of_int bh" using assms(1) by simp
  have "of_int bh * ratio \<le> c * c"
    using b assms(3,4) b0 unfolding c_def [symmetric] by (intro mult_mono) simp_all
  moreover have "0 \<le> of_int bh * ratio" using b0 assms(3) by simp
  ultimately show ?thesis using c(2) by linarith
qed

lemma quotient_in_range:
  fixes ratio :: rat
  assumes "0 < bw" and "bw \<le> 2 ^ 26" and "1 / 2 ^ 26 \<le> ratio"
  shows "0 \<le> of_int bw / ratio \<and> of_int bw / ratio < 2 ^ 53"
proof -
  define c :: rat where "c = 2 ^ 26"
  have c: "0 < c" "c * c < 2 ^ 53" by (simp_all add: c_def)
  have rc: "1 / c \<le> ratio" using assms(3) by (simp add: c_def)
  have "0 < 1 / c" using c(1) by simp
  with rc have r: "0 < ratio" by linarith
  have "(of_int bw :: rat) \<le> of_int (2 ^ 26)"
    using assms(2) by (simp only: of_int_le_iff)
  then have b: "(of_int bw :: rat) \<le> c" by (simp add: c_def)
  have b0: "(0::rat) < of_int bw" using assms(1) by simp
  have "1 \<le> ratio * c" using rc c(1) by (simp only: pos_divide_le_eq)
  then have "of_int bw * 1 \<le> of_int bw * (ratio * c)"
    using b0 by (intro mult_left_mono) simp_all
  then have "of_int bw \<le> (of_int bw * c) * ratio"
    by (simp only: mult_1_right mult.assoc mult.commute [of ratio c])
  then have "of_int bw / ratio \<le> of_int bw * c"
    using r by (simp only: pos_divide_le_eq)
  also have "\<dots> \<le> c * c" using b c(1) by (intro mult_right_mono) simp_all
  finally have "of_int bw / ratio < 2 ^ 53" using c(2) by linarith
  moreover have "0 \<le> of_int bw / ratio" using b0 r by simp
  ultimately show ?thesis by simp
qed

lemma grow_aspect_in_range:
  assumes "t < b" and "b - t \<le> 2 ^ 26" and "\<bar>r - l\<bar> \<le> 2 ^ 26"
    and "1 / 2 ^ 26 \<le> ratio" and "ratio \<le> 2 ^ 26"
  shows "grow_aspect l t r b ratio =
           (if b64 (of_int (r - l) / of_int (b - t)) < ratio
            then Inr (l - (\<lfloor>b64 (of_int (b - t) * ratio)\<rfloor> - (r - l)) div 2, t,
                      r + (\<lfloor>b64 (of_int (b - t) * ratio)\<rfloor> - (r - l)) div 2, b)
            else Inr (l, t - (\<lfloor>b64 (of_int (r - l) / ratio)\<rfloor> - (b - t)) div 2,
                      r, b + (\<lfloor>b64 (of_int (r - l) / ratio)\<rfloor> - (b - t)) div 2))"
    and "\<not> b64 (of_int (r - l) / of_int (b - t)) < ratio \<Longrightarrow> 0 < r - l"
proof -
  have r0: "0 < ratio"
  proof -
    have "(0::rat) < 1 / 2 ^ 26" by simp
    with assms(4) show ?thesis by linarith
  qed
  have bh0: "b - t \<noteq> 0" using assms(1) by simp
  have bw53: "\<bar>r - l\<bar> \<le> 2 ^ 53" and bh53: "\<bar>b - t\<bar> \<le> 2 ^ 53"
    using assms(1,2,3) by simp_all
  note cr = int_true_div_in_range [OF bh0 bw53]
  show pos: "0 < r - l" if "\<not> b64 (of_int (r - l) / of_int (b - t)) < ratio"
  proof (rule ccontr)
    assume "\<not> 0 < r - l"
    then have "(of_int (r - l) :: rat) / of_int (b - t) \<le> 0"
      using assms(1) by (simp add: divide_nonpos_pos)
    then have "b64 (of_int (r - l) / of_int (b - t)) \<le> 0" by (rule b64_nonpos)
    with r0 that show False by simp
  qed
  show "grow_aspect l t r b ratio =
           (if b64 (of_int (r - l) / of_int (b - t)) < ratio
            then Inr (l - (\<lfloor>b64 (of_int (b - t) * ratio)\<rfloor> - (r - l)) div 2, t,
                      r + (\<lfloor>b64 (of_int (b - t) * ratio)\<rfloor> - (r - l)) div 2, b)
            else Inr (l, t - (\<lfloor>b64 (of_int (r - l) / ratio)\<rfloor> - (b - t)) div 2,
                      r, b + (\<lfloor>b64 (of_int (r - l) / ratio)\<rfloor> - (b - t)) div 2))"
  proof (cases "b64 (of_int (r - l) / of_int (b - t)) < ratio")
    case True
    from product_in_range [of "b - t" ratio] assms r0
    have "0 \<le> of_int (b - t) * ratio" "of_int (b - t) * ratio < 2 ^ 53" by simp_all
    from py_int_b64_in_range [OF this]
    have "py_int (b64 (of_int (b - t) * ratio)) = Inr \<lfloor>b64 (of_int (b - t) * ratio)\<rfloor>" by simp
    then show ?thesis
      using True by (simp add: grow_aspect_def Let_def cr float_of_int_in_range [OF bh53])
  next
    case False
    from pos [OF False] quotient_in_range [of "r - l" ratio] assms
    have "0 \<le> of_int (r - l) / ratio" "of_int (r - l) / ratio < 2 ^ 53" by simp_all
    from py_int_b64_in_range [OF this]
    have "py_int (b64 (of_int (r - l) / ratio)) = Inr \<lfloor>b64 (of_int (r - l) / ratio)\<rfloor>" by simp
    then show ?thesis
      using False r0 by (simp add: grow_aspect_def Let_def cr float_of_int_in_range [OF bw53])
  qed
qed

lemma pad_clamp_within:
  assumes "within_image bx w h"
  shows "pad_clamp bx w h 0 = bx"
  using assms by (cases bx) (simp add: within_image_def pad_clamp_def)

lemma near_floor:
  fixes x :: rat and wi nw :: int
  assumes "\<lfloor>x\<rfloor> \<le> nw" and "nw \<le> \<lfloor>x\<rfloor> + 1" and "nw - 1 \<le> wi" and "wi \<le> nw"
  shows "\<bar>of_int wi - x\<bar> < 2"
proof -
  have fx: "of_int \<lfloor>x\<rfloor> \<le> x" "x < of_int \<lfloor>x\<rfloor> + 1" by linarith+
  from assms have "\<lfloor>x\<rfloor> - 1 \<le> wi" "wi \<le> \<lfloor>x\<rfloor> + 1" by linarith+
  then have "(of_int (\<lfloor>x\<rfloor> - 1) :: rat) \<le> of_int wi" "(of_int wi :: rat) \<le> of_int (\<lfloor>x\<rfloor> + 1)"
    by (simp_all only: of_int_le_iff)
  then have "of_int \<lfloor>x\<rfloor> - 1 \<le> (of_int wi :: rat)" "(of_int wi :: rat) \<le> of_int \<lfloor>x\<rfloor> + 1"
    by (simp_all only: of_int_diff of_int_add of_int_1)
  with fx show ?thesis by linarith
qed


lemma floor_numeral_div:
  "\<lfloor>numeral a / numeral b :: rat\<rfloor> = numeral a div numeral b"
  using floor_divide_of_int_eq [of "numeral a" "numeral b", where ?'a = rat] by simp

lemma b64_numeral:
  assumes "numeral k \<le> (2::int) ^ 53"
  shows "b64 (numeral k) = numeral k"
  using b64_of_int [of "numeral k"] assms by simp

lemma b64_one: "b64 1 = 1"
  using b64_of_int [of 1] by simp

lemma b64_facts:
  "b64 (1 / 2) = 1 / 2"
  "b64 (3 / 2) = 3 / 2"
  "b64 (1 / 10) = 3602879701896397 / 36028797018963968"
  "b64 (35 / 2) = 35 / 2"
  "b64 (9 / 7) = 5790342378047781 / 4503599627370496"
  "b64 (13510798882111488 / 1930114126015927) = 7881299347898367 / 1125899906842624"
  by code_simp+

lemmas eval_defs = expand_aspect_def grow_aspect_def pad_clamp_def int_true_div_def float_of_int_def
  py_int_def overflows_def Let_def floor_numeral_div b64_numeral b64_one

lemmas run_defs = no_failure_def im_crop_def resize_and_save_def mkdir_def save_def is_dir_def
  debug_overlay_def

section \<open>The aspect ratio of the expanded box\<close>

text \<open>
  C1, as stated: with pad 40 and nothing clamped the returned box is 280 by 180 for the
  ratio 2 (80 pixels of width, or 40 of height, away from it); with pad 0 and nothing
  clamped a box of 16 by 20 is returned for the ratio 7/8 (more than one pixel away in
  either extent); and the ratio 0 raises ZeroDivisionError.
\<close>

theorem expand_aspect_misses_ratio:
  "expand_aspect 100 100 200 200 2 1000 1000 40 = Inr (10, 60, 290, 240) \<and>
   width_error (10, 60, 290, 240) 2 = 80 \<and> height_error (10, 60, 290, 240) 2 = 40 \<and>
   expand_aspect 10 10 12 30 (7 / 8) 100 100 0 = Inr (3, 10, 19, 30) \<and>
   width_error (3, 10, 19, 30) (7 / 8) = 3 / 2 \<and>
   height_error (3, 10, 19, 30) (7 / 8) = 12 / 7 \<and>
   expand_aspect 10 10 12 14 0 100 100 0 = Inl ZeroDivisionError"
  by (simp add: eval_defs b64_facts width_error_def height_error_def)

text \<open>
  C1, amended: for a box with \<open>t < b\<close>, extents up to \<open>2 ^ 26\<close> and a ratio between
  \<open>2 ^ -26\<close> and \<open>2 ^ 26\<close>, the box that \<open>expand_aspect\<close> has before the pad is added keeps
  one extent and has the other less than two pixels from the target ratio; the returned
  box is that box with the pad added on every side and clamped, so it is that box itself
  when the pad is 0 and the box lies in the image.
\<close>

theorem grow_aspect_ratio_tolerance:
  assumes "t < b" and "b - t \<le> 2 ^ 26" and "\<bar>r - l\<bar> \<le> 2 ^ 26"
    and "1 / 2 ^ 26 \<le> ratio" and "ratio \<le> 2 ^ 26"
  shows "\<exists>bx. grow_aspect l t r b ratio = Inr bx \<and>
           expand_aspect l t r b ratio w h pad = Inr (pad_clamp bx w h pad) \<and>
           (within_image bx w h \<longrightarrow> expand_aspect l t r b ratio w h 0 = Inr bx) \<and>
           (box_height bx = b - t \<and> width_error bx ratio < 2 \<or>
            box_width bx = r - l \<and> height_error bx ratio < 2)"
proof -
  have r0: "0 < ratio"
  proof -
    have "(0::rat) < 1 / 2 ^ 26" by simp
    with assms(4) show ?thesis by linarith
  qed
  note g = grow_aspect_in_range [OF assms]
  have fin: ?thesis
    if gr: "grow_aspect l t r b ratio = Inr bx"
      and er: "box_height bx = b - t \<and> width_error bx ratio < 2 \<or>
               box_width bx = r - l \<and> height_error bx ratio < 2" for bx
  proof (intro exI [of _ bx] conjI impI)
    show "grow_aspect l t r b ratio = Inr bx" by (rule gr)
    show "expand_aspect l t r b ratio w h pad = Inr (pad_clamp bx w h pad)"
      using gr by (simp add: expand_aspect_def)
    show "expand_aspect l t r b ratio w h 0 = Inr bx" if "within_image bx w h"
      using gr pad_clamp_within [OF that] by (simp add: expand_aspect_def)
    show "box_height bx = b - t \<and> width_error bx ratio < 2 \<or>
          box_width bx = r - l \<and> height_error bx ratio < 2" by (rule er)
  qed
  show ?thesis
  proof (cases "b64 (of_int (r - l) / of_int (b - t)) < ratio")
    case True
    define x where "x = of_int (b - t) * ratio"
    define nw where "nw = \<lfloor>b64 x\<rfloor>"
    define d where "d = (nw - (r - l)) div 2"
    have gr: "grow_aspect l t r b ratio = Inr (l - d, t, r + d, b)"
      using g(1) True by (simp add: d_def nw_def x_def)
    from product_in_range [of "b - t" ratio] assms r0
    have "0 \<le> x" "x < 2 ^ 53" by (simp_all add: x_def)
    from py_int_b64_in_range [OF this]
    have nwb: "\<lfloor>x\<rfloor> \<le> nw" "nw \<le> \<lfloor>x\<rfloor> + 1" by (simp_all add: nw_def)
    have wd: "nw - 1 \<le> (r + d) - (l - d)" "(r + d) - (l - d) \<le> nw"
      using half_step [of nw "r - l"] by (simp_all add: d_def)
    have "width_error (l - d, t, r + d, b) ratio < 2"
      unfolding width_error_def prod.case x_def [symmetric]
      by (rule near_floor [OF nwb wd])
    moreover have "box_height (l - d, t, r + d, b) = b - t" by (simp add: box_height_def)
    ultimately have "box_height (l - d, t, r + d, b) = b - t \<and>
                     width_error (l - d, t, r + d, b) ratio < 2" by simp
    from fin [OF gr disjI1 [OF this]] show ?thesis .
  next
    case False
    define y where "y = of_int (r - l) / ratio"
    define nh where "nh = \<lfloor>b64 y\<rfloor>"
    define d where "d = (nh - (b - t)) div 2"
    have gr: "grow_aspect l t r b ratio = Inr (l, t - d, r, b + d)"
      using g(1) False by (simp add: d_def nh_def y_def)
    from g(2) [OF False] quotient_in_range [of "r - l" ratio] assms
    have "0 \<le> y" "y < 2 ^ 53" by (simp_all add: y_def)
    from py_int_b64_in_range [OF this]
    have nhb: "\<lfloor>y\<rfloor> \<le> nh" "nh \<le> \<lfloor>y\<rfloor> + 1" by (simp_all add: nh_def)
    have hd: "nh - 1 \<le> (b + d) - (t - d)" "(b + d) - (t - d) \<le> nh"
      using half_step [of nh "b - t"] by (simp_all add: d_def)
    have "height_error (l, t - d, r, b + d) ratio < 2"
      unfolding height_error_def prod.case y_def [symmetric]
      by (rule near_floor [OF nhb hd])
    moreover have "box_width (l, t - d, r, b + d) = r - l" by (simp add: box_width_def)
    ultimately have "box_width (l, t - d, r, b + d) = r - l \<and>
                     height_error (l, t - d, r, b + d) ratio < 2" by simp
    from fin [OF gr disjI2 [OF this]] show ?thesis .
  qed
qed

theorem grow_aspect_ratio_tolerance_witness:
  "(40::int) < 760 \<and> 760 - 40 \<le> (2::int) ^ 26 \<and> \<bar>860 - 140\<bar> \<le> (2::int) ^ 26 \<and>
   1 / 2 ^ 26 \<le> (3 / 4 :: rat) \<and> (3 / 4 :: rat) \<le> 2 ^ 26 \<and>
   grow_aspect 140 40 860 760 (3 / 4) = Inr (140, - 80, 860, 880) \<and>
   height_error (140, - 80, 860, 880) (3 / 4) = 0 \<and>
   expand_aspect 140 40 860 760 (3 / 4) 1000 800 40 = Inr (100, 0, 900, 800)"
proof -
  have g: "grow_aspect 140 40 860 760 (3 / 4) = Inr (140, - 80, 860, 880)"
    by (simp add: eval_defs)
  have "\<exists>bx. grow_aspect 140 40 860 760 (3 / 4) = Inr bx \<and>
          expand_aspect 140 40 860 760 (3 / 4) 1000 800 40 = Inr (pad_clamp bx 1000 800 40) \<and>
          (within_image bx 1000 800 \<longrightarrow>
             expand_aspect 140 40 860 760 (3 / 4) 1000 800 0 = Inr bx) \<and>
          (box_height bx = 760 - 40 \<and> width_error bx (3 / 4) < 2 \<or>
           box_width bx = 860 - 140 \<and> height_error bx (3 / 4) < 2)"
    by (rule grow_aspect_ratio_tolerance) simp_all
  then have "expand_aspect 140 40 860 760 (3 / 4) 1000 800 40 =
               Inr (pad_clamp (140, - 80, 860, 880) 1000 800 40)"
    unfolding g by auto
  then show ?thesis
    using g by (simp add: pad_clamp_def height_error_def)
qed

section \<open>Re-applying \<open>expand_aspect\<close>\<close>

lemma div2_zero:
  fixes a :: int
  assumes "0 \<le> a" and "a \<le> 1"
  shows "a div 2 = 0"
  using assms by simp

lemma floor_b64_le:
  assumes "x \<le> of_int n" and "\<bar>n\<bar> \<le> 2 ^ 53"
  shows "\<lfloor>b64 x\<rfloor> \<le> n"
proof -
  have "b64 x \<le> of_int n" using b64_mono [OF assms(1)] b64_of_int [OF assms(2)] by simp
  from floor_mono [OF this] show ?thesis by (simp only: floor_of_int)
qed

lemma floor_b64_ge:
  assumes "of_int n \<le> x" and "\<bar>n\<bar> \<le> 2 ^ 53"
  shows "n \<le> \<lfloor>b64 x\<rfloor>"
proof -
  have "of_int n \<le> b64 x" using b64_mono [OF assms(1)] b64_of_int [OF assms(2)] by simp
  then show ?thesis by (simp only: le_floor_iff)
qed

lemma b64_error_in_range:
  assumes "1 / 2 ^ 26 \<le> x"
  shows "\<bar>b64 x - x\<bar> \<le> x / 2 ^ 53"
proof -
  have "(2::rat) powi (- 26) = 1 / 2 ^ 26" by (simp add: power_int_minus field_simps)
  with assms have "(2::rat) powi (- 26) \<le> x" by simp
  then have "- 26 \<le> ilog2 x" by (rule ilog2_ge)
  then have e: "- 1022 \<le> ilog2 x" by simp
  have "(0::rat) < 1 / 2 ^ 26" by simp
  with assms have "0 < x" by linarith
  from b64_abs_error [OF this e] show ?thesis .
qed

lemma small_share:
  fixes x :: rat
  assumes "0 \<le> x" and "0 \<le> m" and "m \<le> 2 ^ 53"
  shows "of_int m * (x / 2 ^ 53) \<le> x"
proof -
  have "(of_int m :: rat) \<le> of_int (2 ^ 53)" using assms(3) by (simp only: of_int_le_iff)
  then have "(of_int m :: rat) \<le> 2 ^ 53" by simp
  then have "of_int m * x \<le> 2 ^ 53 * x" using assms(1) by (rule mult_right_mono)
  then show ?thesis by (simp add: field_simps)
qed

text \<open>y is x rounded, x = bw / bh: then bw \<le> (bh + 1) * y.\<close>
lemma tie_bound:
  fixes x y :: rat
  assumes "0 \<le> x" and "\<bar>y - x\<bar> \<le> x / 2 ^ 53" and "0 \<le> m" and "m + 1 \<le> 2 ^ 53"
  shows "of_int m * x \<le> of_int (m + 1) * y"
proof -
  define M :: rat where "M = of_int (m + 1)"
  have M0: "0 \<le> M" using assms(3) by (simp add: M_def)
  have Mm: "of_int m = M - 1" by (simp add: M_def)
  have sh: "M * (x / 2 ^ 53) \<le> x"
    unfolding M_def using assms(1,3,4) by (intro small_share) simp_all
  from assms(2) have "x - x / 2 ^ 53 \<le> y" by linarith
  then have "M * (x - x / 2 ^ 53) \<le> M * y" using M0 by (rule mult_left_mono)
  then have "M * x - M * (x / 2 ^ 53) \<le> M * y" by (simp only: right_diff_distrib)
  with sh have "M * x - x \<le> M * y" by linarith
  then show ?thesis unfolding Mm M_def [symmetric] by (simp add: algebra_simps)
qed

text \<open>y is m * rho rounded: then y \<le> (m + 1) * rho.\<close>
lemma product_bound:
  fixes rho y :: rat
  assumes "0 \<le> rho" and "0 \<le> m" and "m \<le> 2 ^ 53"
    and "\<bar>y - of_int m * rho\<bar> \<le> of_int m * rho / 2 ^ 53"
  shows "y \<le> of_int (m + 1) * rho"
proof -
  have "of_int m * (rho / 2 ^ 53) \<le> rho" using assms(1,2,3) by (rule small_share)
  moreover have "of_int m * rho / 2 ^ 53 = of_int m * (rho / 2 ^ 53)" by simp
  moreover from assms(4) have "y \<le> of_int m * rho + of_int m * rho / 2 ^ 53" by linarith
  ultimately have "y \<le> of_int m * rho + rho" by linarith
  then show ?thesis by (simp add: algebra_simps)
qed

text \<open>y is bw / rho rounded and bh \<le> y: then bh * rho \<le> bw + 1.\<close>
lemma quotient_bound:
  fixes rho y :: rat
  assumes "0 < rho" and "0 \<le> bw" and "bw \<le> 2 ^ 53"
    and "\<bar>y - of_int bw / rho\<bar> \<le> of_int bw / rho / 2 ^ 53" and "of_int bh \<le> y"
  shows "of_int bh * rho \<le> of_int (bw + 1)"
proof -
  have sh: "of_int bw * (1 / 2 ^ 53) \<le> (1::rat)"
    using small_share [of 1 bw] assms(2,3) by simp
  from assms(4,5) have "of_int bh \<le> of_int bw / rho + of_int bw / rho / 2 ^ 53" by linarith
  then have "of_int bh * rho \<le> (of_int bw / rho + of_int bw / rho / 2 ^ 53) * rho"
    using assms(1) by (intro mult_right_mono) simp_all
  also have "\<dots> = of_int bw + of_int bw * (1 / 2 ^ 53)"
    using assms(1) by (simp add: field_simps)
  finally show ?thesis using sh by simp
qed

lemma ratio_pos:
  fixes ratio :: rat
  assumes "1 / 2 ^ 26 \<le> ratio"
  shows "0 < ratio"
proof -
  have "(0::rat) < 1 / 2 ^ 26" by simp
  with assms show ?thesis by linarith
qed

lemma frac_lower:
  assumes "0 < bw" and "0 < bh" and "bh \<le> 2 ^ 26"
  shows "1 / 2 ^ 26 \<le> (of_int bw :: rat) / of_int bh"
proof -
  have "(of_int bh :: rat) \<le> of_int (2 ^ 26)" using assms(3) by (simp only: of_int_le_iff)
  then have b: "(of_int bh :: rat) \<le> 2 ^ 26" by simp
  have "(1::rat) \<le> of_int bw" using assms(1) by (simp add: int_one_le_iff_zero_less)
  then have "(of_int bh :: rat) * 1 \<le> 2 ^ 26 * of_int bw"
    using b assms(2) by (intro mult_mono) simp_all
  then show ?thesis using assms(2) by (simp add: field_simps)
qed

lemma product_lower:
  fixes ratio :: rat
  assumes "0 < bh" and "1 / 2 ^ 26 \<le> ratio"
  shows "1 / 2 ^ 26 \<le> of_int bh * ratio"
proof -
  have "(1::rat) \<le> of_int bh" using assms(1) by (simp add: int_one_le_iff_zero_less)
  then have "1 * ratio \<le> of_int bh * ratio"
    using ratio_pos [OF assms(2)] by (intro mult_right_mono) simp_all
  then have "ratio \<le> of_int bh * ratio" by (simp only: mult_1_left)
  with assms(2) show ?thesis by linarith
qed

lemma quotient_lower:
  fixes ratio :: rat
  assumes "0 < bw" and "0 < ratio" and "ratio \<le> 2 ^ 26"
  shows "1 / 2 ^ 26 \<le> of_int bw / ratio"
proof -
  have "(1::rat) \<le> of_int bw" using assms(1) by (simp add: int_one_le_iff_zero_less)
  then have "ratio * 1 \<le> 2 ^ 26 * of_int bw"
    using assms(2,3) by (intro mult_mono) simp_all
  then show ?thesis using assms(2) by (simp add: field_simps)
qed

lemma grow_aspect_fixed:
  assumes "l < r" and "t < b" and "r - l \<le> 2 ^ 26" and "b - t \<le> 2 ^ 26"
    and "1 / 2 ^ 26 \<le> ratio" and "ratio \<le> 2 ^ 26"
    and W: "b64 (of_int (r - l) / of_int (b - t)) < ratio \<Longrightarrow>
            r - l \<le> \<lfloor>b64 (of_int (b - t) * ratio)\<rfloor> \<and> \<lfloor>b64 (of_int (b - t) * ratio)\<rfloor> \<le> r - l + 1"
    and H: "\<not> b64 (of_int (r - l) / of_int (b - t)) < ratio \<Longrightarrow>
            \<lfloor>b64 (of_int (r - l) / ratio)\<rfloor> \<le> b - t + 1"
    and "\<not> slips l t r b ratio"
  shows "grow_aspect l t r b ratio = Inr (l, t, r, b)"
proof -
  have bw: "\<bar>r - l\<bar> \<le> 2 ^ 26" using assms(1,3) by simp
  note g = grow_aspect_in_range(1) [OF assms(2,4) bw assms(5,6)]
  show ?thesis
  proof (cases "b64 (of_int (r - l) / of_int (b - t)) < ratio")
    case True
    from W [OF True] have "(\<lfloor>b64 (of_int (b - t) * ratio)\<rfloor> - (r - l)) div 2 = 0"
      by (intro div2_zero) simp_all
    with g True show ?thesis by simp
  next
    case False
    with assms(9) have "b - t \<le> \<lfloor>b64 (of_int (r - l) / ratio)\<rfloor>" by (simp add: slips_def)
    with H [OF False] have "(\<lfloor>b64 (of_int (r - l) / ratio)\<rfloor> - (b - t)) div 2 = 0"
      by (intro div2_zero) simp_all
    with g False show ?thesis by simp
  qed
qed

lemma tie_height:
  assumes "l < r" and "t < b" and "r - l \<le> 2 ^ 26" and "b - t \<le> 2 ^ 26"
    and "b64 (of_int (r - l) / of_int (b - t)) = ratio"
  shows "\<lfloor>b64 (of_int (r - l) / ratio)\<rfloor> \<le> b - t + 1"
proof -
  define x :: rat where "x = of_int (r - l) / of_int (b - t)"
  have lo: "1 / 2 ^ 26 \<le> x"
    unfolding x_def using assms(1,2,4) by (intro frac_lower) simp_all
  then have x0: "0 < x" by (rule ratio_pos)
  have err: "\<bar>ratio - x\<bar> \<le> x / 2 ^ 53"
    using b64_error_in_range [OF lo] assms(5) by (simp add: x_def)
  have "of_int (b - t) * x \<le> of_int (b - t + 1) * ratio"
    using x0 err assms(2,4) by (intro tie_bound) simp_all
  moreover have "of_int (b - t) * x = of_int (r - l)"
    using assms(2) by (simp add: x_def)
  ultimately have le: "of_int (r - l) \<le> of_int (b - t + 1) * ratio" by simp
  have r0: "0 < ratio"
  proof -
    have "x - x / 2 ^ 53 \<le> ratio" using err by linarith
    moreover have "0 < x - x / 2 ^ 53" using x0 by (simp add: field_simps)
    ultimately show ?thesis by linarith
  qed
  from le r0 have "of_int (r - l) / ratio \<le> of_int (b - t + 1)"
    by (simp only: pos_divide_le_eq)
  then show ?thesis using assms(2,4) by (intro floor_b64_le) simp_all
qed

lemma regrow_after_width:
  assumes "t < b" and "b - t \<le> 2 ^ 26"
    and "1 / 2 ^ 26 \<le> ratio" and "ratio \<le> 2 ^ 26"
    and "0 < bw" and "bw \<le> \<lfloor>b64 (of_int (b - t) * ratio)\<rfloor>"
  shows "\<lfloor>b64 (of_int bw / ratio)\<rfloor> \<le> b - t + 1"
proof -
  define x where "x = of_int (b - t) * ratio"
  have r0: "0 < ratio" by (rule ratio_pos [OF assms(3)])
  have lo: "1 / 2 ^ 26 \<le> x"
    unfolding x_def using assms(1,3) by (intro product_lower) simp_all
  have "b64 x \<le> of_int (b - t + 1) * ratio"
    using r0 assms(1,2) b64_error_in_range [OF lo]
    by (intro product_bound) (simp_all add: x_def)
  moreover have "of_int bw \<le> b64 x"
    using assms(6) by (simp add: x_def le_floor_iff)
  ultimately have "of_int bw \<le> of_int (b - t + 1) * ratio" by linarith
  with r0 have "of_int bw / ratio \<le> of_int (b - t + 1)"
    by (simp only: pos_divide_le_eq)
  then show ?thesis using assms(1,2) by (intro floor_b64_le) simp_all
qed

lemma regrow_after_height:
  assumes "0 < bw" and "bw \<le> 2 ^ 26" and "0 < bh"
    and "is_double ratio" and "1 / 2 ^ 26 \<le> ratio" and "ratio \<le> 2 ^ 26"
    and "bh \<le> \<lfloor>b64 (of_int bw / ratio)\<rfloor>"
    and "b64 (of_int bw / of_int bh) < ratio"
  shows "bw \<le> \<lfloor>b64 (of_int bh * ratio)\<rfloor> \<and> \<lfloor>b64 (of_int bh * ratio)\<rfloor> \<le> bw + 1"
proof
  have r0: "0 < ratio" by (rule ratio_pos [OF assms(5)])
  have "of_int bw / of_int bh < ratio"
  proof (rule ccontr)
    assume "\<not> of_int bw / of_int bh < ratio"
    then have "ratio \<le> of_int bw / of_int bh" by simp
    then have "b64 ratio \<le> b64 (of_int bw / of_int bh)" by (rule b64_mono)
    with assms(4,8) show False by (simp add: is_double_def)
  qed
  then have "of_int bw \<le> of_int bh * ratio"
    using assms(3) by (simp add: pos_divide_less_eq mult.commute)
  then show "bw \<le> \<lfloor>b64 (of_int bh * ratio)\<rfloor>"
    using assms(1,2) by (intro floor_b64_ge) simp_all
  define y where "y = of_int bw / ratio"
  have lo: "1 / 2 ^ 26 \<le> y"
    unfolding y_def using assms(1,6) r0 by (intro quotient_lower)
  have "of_int bh \<le> b64 y" using assms(7) by (simp add: y_def le_floor_iff)
  then have "of_int bh * ratio \<le> of_int (bw + 1)"
    using r0 assms(1,2) b64_error_in_range [OF lo]
    by (intro quotient_bound [where y = "b64 y"]) (simp_all add: y_def)
  then show "\<lfloor>b64 (of_int bh * ratio)\<rfloor> \<le> bw + 1"
    using assms(1,2) by (intro floor_b64_le) simp_all
qed

text \<open>
  C4, as stated: a result that was clamped grows again when \<open>expand_aspect\<close> is
  re-applied with pad 0; and a box of 9 by 7, whose ratio as computed is exactly the
  target \<open>9 / 7\<close>, loses a pixel at the top and at the bottom.
\<close>

theorem expand_aspect_not_idempotent:
  "expand_aspect 0 0 10 10 2 100 100 0 = Inr (0, 0, 15, 10) \<and>
   expand_aspect 0 0 15 10 2 100 100 0 = Inr (0, 0, 17, 10) \<and>
   int_true_div 9 7 = Inr (5790342378047781 / 4503599627370496) \<and>
   expand_aspect 10 10 19 17 (5790342378047781 / 4503599627370496) 100 100 0 =
     Inr (10, 11, 19, 16)"
  by (simp add: eval_defs b64_facts)

text \<open>
  C4, amended: take a box with extents up to \<open>2 ^ 26\<close> and a ratio that is a double
  between \<open>2 ^ -26\<close> and \<open>2 ^ 26\<close>, such that the ratio of the box as computed equals the
  target, or the box is what \<open>expand_aspect\<close> has, before pad and clamping, for some box
  and the same ratio. Unless the quotient \<open>int(bw / ratio)\<close> falls below the height of the
  box, no expansion occurs: \<open>expand_aspect\<close> returns the box with the pad added and
  clamped, and the box itself when the pad is 0 and the box lies in the image.
\<close>

theorem expand_aspect_stable:
  assumes "l < r" and "t < b" and "r - l \<le> 2 ^ 26" and "b - t \<le> 2 ^ 26"
    and "is_double ratio" and "1 / 2 ^ 26 \<le> ratio" and "ratio \<le> 2 ^ 26"
    and src: "int_true_div (r - l) (b - t) = Inr ratio \<or>
              (t0 < b0 \<and> b0 - t0 \<le> 2 ^ 26 \<and> \<bar>r0 - l0\<bar> \<le> 2 ^ 26 \<and>
               grow_aspect l0 t0 r0 b0 ratio = Inr (l, t, r, b))"
    and noslip: "\<not> slips l t r b ratio"
  shows "expand_aspect l t r b ratio w h pad = Inr (pad_clamp (l, t, r, b) w h pad) \<and>
         (within_image (l, t, r, b) w h \<longrightarrow>
            expand_aspect l t r b ratio w h 0 = Inr (l, t, r, b))"
proof -
  let ?cr = "b64 (of_int (r - l) / of_int (b - t))"
  let ?nw = "\<lfloor>b64 (of_int (b - t) * ratio)\<rfloor>"
  let ?nh = "\<lfloor>b64 (of_int (r - l) / ratio)\<rfloor>"
  have bw: "0 < r - l" and bh: "0 < b - t" using assms(1,2) by simp_all
  have WH: "(?cr < ratio \<longrightarrow> r - l \<le> ?nw \<and> ?nw \<le> r - l + 1) \<and>
            (\<not> ?cr < ratio \<longrightarrow> ?nh \<le> b - t + 1)"
    using src
  proof
    assume "int_true_div (r - l) (b - t) = Inr ratio"
    moreover have "int_true_div (r - l) (b - t) = Inr ?cr"
      using bh assms(1,3) by (intro int_true_div_in_range) simp_all
    ultimately have tie: "?cr = ratio" by simp
    from tie_height [OF assms(1,2,3,4) tie] tie show ?thesis by simp
  next
    assume "t0 < b0 \<and> b0 - t0 \<le> 2 ^ 26 \<and> \<bar>r0 - l0\<bar> \<le> 2 ^ 26 \<and>
            grow_aspect l0 t0 r0 b0 ratio = Inr (l, t, r, b)"
    then have b0: "t0 < b0" "b0 - t0 \<le> 2 ^ 26" "\<bar>r0 - l0\<bar> \<le> 2 ^ 26"
      and gr: "grow_aspect l0 t0 r0 b0 ratio = Inr (l, t, r, b)" by simp_all
    note g0 = grow_aspect_in_range(1) [OF b0 assms(6,7)]
    show ?thesis
    proof (cases "b64 (of_int (r0 - l0) / of_int (b0 - t0)) < ratio")
      case True
      define d where "d = (\<lfloor>b64 (of_int (b0 - t0) * ratio)\<rfloor> - (r0 - l0)) div 2"
      from g0 True gr have eq: "l = l0 - d" "t = t0" "r = r0 + d" "b = b0"
        by (simp_all add: d_def)
      have wd: "\<lfloor>b64 (of_int (b0 - t0) * ratio)\<rfloor> - 1 \<le> r - l"
        "r - l \<le> \<lfloor>b64 (of_int (b0 - t0) * ratio)\<rfloor>"
        using half_step [of "\<lfloor>b64 (of_int (b0 - t0) * ratio)\<rfloor>" "r0 - l0"]
        by (simp_all add: eq d_def)
      then have w: "r - l \<le> ?nw \<and> ?nw \<le> r - l + 1" by (simp add: eq)
      have "?nh \<le> b - t + 1"
        using assms(2,4,6,7) bw w by (intro regrow_after_width) simp_all
      with w show ?thesis by simp
    next
      case False
      define d where "d = (\<lfloor>b64 (of_int (r0 - l0) / ratio)\<rfloor> - (b0 - t0)) div 2"
      from g0 False gr have eq: "l = l0" "t = t0 - d" "r = r0" "b = b0 + d"
        by (simp_all add: d_def)
      have hd: "\<lfloor>b64 (of_int (r0 - l0) / ratio)\<rfloor> - 1 \<le> b - t"
        "b - t \<le> \<lfloor>b64 (of_int (r0 - l0) / ratio)\<rfloor>"
        using half_step [of "\<lfloor>b64 (of_int (r0 - l0) / ratio)\<rfloor>" "b0 - t0"]
        by (simp_all add: eq d_def)
      then have h: "b - t \<le> ?nh \<and> ?nh \<le> b - t + 1" by (simp add: eq)
      have "r - l \<le> ?nw \<and> ?nw \<le> r - l + 1" if "?cr < ratio"
        using bw bh assms(3,5,6,7) h that by (intro regrow_after_height) simp_all
      with h show ?thesis by simp
    qed
  qed
  have "grow_aspect l t r b ratio = Inr (l, t, r, b)"
    using assms(1,2,3,4,6,7) WH noslip by (intro grow_aspect_fixed) simp_all
  then show ?thesis
    using pad_clamp_within [of "(l, t, r, b)" w h] by (simp add: expand_aspect_def)
qed


theorem expand_aspect_stable_witness:
  "(50::int) < 250 \<and> (100::int) < 200 \<and> 250 - 50 \<le> (2::int) ^ 26 \<and> 200 - 100 \<le> (2::int) ^ 26 \<and>
   is_double 2 \<and> 1 / 2 ^ 26 \<le> (2::rat) \<and> (2::rat) \<le> 2 ^ 26 \<and>
   grow_aspect 100 100 200 200 2 = Inr (50, 100, 250, 200) \<and>
   \<not> slips 50 100 250 200 2 \<and>
   within_image (50, 100, 250, 200) 1000 1000 \<and>
   expand_aspect 100 100 200 200 2 1000 1000 0 = Inr (50, 100, 250, 200) \<and>
   expand_aspect 50 100 250 200 2 1000 1000 0 = Inr (50, 100, 250, 200)"
proof -
  have d: "is_double 2" by (simp add: is_double_def overflows_def b64_numeral)
  have g: "grow_aspect 100 100 200 200 2 = Inr (50, 100, 250, 200)"
    by (simp add: eval_defs)
  have s: "\<not> slips 50 100 250 200 2"
    by (simp add: slips_def b64_numeral)
  have wi: "within_image (50, 100, 250, 200) 1000 1000" by (simp add: within_image_def)
  have e: "expand_aspect 100 100 200 200 2 1000 1000 0 = Inr (50, 100, 250, 200)"
    by (simp add: eval_defs)
  have "expand_aspect 50 100 250 200 2 1000 1000 0 =
          Inr (pad_clamp (50, 100, 250, 200) 1000 1000 0) \<and>
        (within_image (50, 100, 250, 200) 1000 1000 \<longrightarrow>
           expand_aspect 50 100 250 200 2 1000 1000 0 = Inr (50, 100, 250, 200))"
    by (rule expand_aspect_stable [where ?l0.0 = 100 and ?t0.0 = 100 and ?r0.0 = 200
          and ?b0.0 = 200]) (simp_all add: d g s)
  with wi have "expand_aspect 50 100 250 200 2 1000 1000 0 = Inr (50, 100, 250, 200)"
    by blast
  with d g s wi e show ?thesis by simp
qed

section \<open>A box with exactly the target ratio\<close>

lemma width_not_below:
  assumes "0 < bw" and "bw \<le> 2 ^ 26" and "0 < bh" and "is_double ratio"
    and "b64 (of_int bw / of_int bh) < ratio"
  shows "bw \<le> \<lfloor>b64 (of_int bh * ratio)\<rfloor>"
proof -
  have "of_int bw / of_int bh < ratio"
  proof (rule ccontr)
    assume "\<not> of_int bw / of_int bh < ratio"
    then have "ratio \<le> of_int bw / of_int bh" by simp
    then have "b64 ratio \<le> b64 (of_int bw / of_int bh)" by (rule b64_mono)
    with assms(4,5) show False by (simp add: is_double_def)
  qed
  then have "of_int bw \<le> of_int bh * ratio"
    using assms(3) by (simp add: pos_divide_less_eq mult.commute)
  then show ?thesis using assms(1,2) by (intro floor_b64_ge) simp_all
qed

text \<open>
  Where that quotient does not fall below the height, a box inside the image comes back,
  for a pad that is not negative, as a box inside the image that contains it.
\<close>

lemma expand_aspect_contains_without_slip:
  assumes "0 \<le> l" and "l < r" and "r \<le> w" and "0 \<le> t" and "t < b" and "b \<le> h"
    and "r - l \<le> 2 ^ 26" and "b - t \<le> 2 ^ 26"
    and "is_double ratio" and "1 / 2 ^ 26 \<le> ratio" and "ratio \<le> 2 ^ 26"
    and "0 \<le> pad" and "\<not> slips l t r b ratio"
  shows "\<exists>bx. expand_aspect l t r b ratio w h pad = Inr bx \<and> box_contains bx (l, t, r, b) \<and>
           within_image bx w h \<and> 0 < box_width bx \<and> 0 < box_height bx"
proof -
  have bw: "\<bar>r - l\<bar> \<le> 2 ^ 26" using assms(2,7) by simp
  note g = grow_aspect_in_range(1) [OF assms(5,8) bw assms(10,11)]
  have fin: ?thesis
    if gr: "grow_aspect l t r b ratio = Inr (l1, t1, r1, b1)"
      and c: "l1 \<le> l" "t1 \<le> t" "r \<le> r1" "b \<le> b1" for l1 t1 r1 b1
    using gr c assms(1-6,12)
    by (intro exI [of _ "pad_clamp (l1, t1, r1, b1) w h pad"])
      (simp add: expand_aspect_def pad_clamp_def box_contains_def within_image_def
        box_width_def box_height_def)
  show ?thesis
  proof (cases "b64 (of_int (r - l) / of_int (b - t)) < ratio")
    case True
    define d where "d = (\<lfloor>b64 (of_int (b - t) * ratio)\<rfloor> - (r - l)) div 2"
    have "r - l \<le> \<lfloor>b64 (of_int (b - t) * ratio)\<rfloor>"
      using assms(2,5,7,9) True by (intro width_not_below) simp_all
    then have d0: "0 \<le> d" by (simp add: d_def)
    have "grow_aspect l t r b ratio = Inr (l - d, t, r + d, b)"
      using g True by (simp add: d_def)
    then show ?thesis using d0 by (intro fin [of "l - d" t "r + d" b]) simp_all
  next
    case False
    define d where "d = (\<lfloor>b64 (of_int (r - l) / ratio)\<rfloor> - (b - t)) div 2"
    have "b - t \<le> \<lfloor>b64 (of_int (r - l) / ratio)\<rfloor>"
      using assms(13) False by (simp add: slips_def)
    then have d0: "0 \<le> d" by (simp add: d_def)
    have "grow_aspect l t r b ratio = Inr (l, t - d, r, b + d)"
      using g False by (simp add: d_def)
    then show ?thesis using d0 by (intro fin [of l "t - d" r "b + d"]) simp_all
  qed
qed

lemma b64_slip_fact:
  "b64 (810647932926689280 / 1930114126015927) = 7388718138654719 / 17592186044416"
  by code_simp

text \<open>
  C2, at a failing input: the detector returns the box (100, 100, 640, 520), 540 by
  420, in an image of 1000 by 800, and the profile is 900x700 with pad 0, on a fresh run
  in which no call of the library raises. The ratio
  \<open>900 / 700\<close> and the ratio of the box are the same double, \<open>540 / ratio\<close> is computed as
  \<open>419.99999999999994\<close>, and the crop (100, 101, 640, 519) that is saved does not contain
  the box.
\<close>

theorem expand_aspect_shrinks_subject:
  "int_true_div 900 700 = Inr (5790342378047781 / 4503599627370496) \<and>
   int_true_div (640 - 100) (520 - 100) = Inr (5790342378047781 / 4503599627370496) \<and>
   expand_aspect 100 100 640 520 (5790342378047781 / 4503599627370496) 1000 800 0 =
     Inr (100, 101, 640, 519) \<and>
   \<not> box_contains (100, 101, 640, 519) (100, 100, 640, 520) \<and>
   process no_failure default_args web_profile (\<lambda>_. Some (100, 100, 640, 520))
     [File ''a.jpg'' (Some (1000, 800))] \<lparr>dirs = [], files = []\<rparr> =
   (\<lparr>dirs = [[''output'', ''web'']],
     files = [\<lparr>path = [''output'', ''web'', ''a_web900x700.jpg''],
               content = Crop ''a.jpg'' (100, 101, 640, 519) (900, 700),
               quality = Some 40\<rparr>]\<rparr>, None)"
proof -
  have r: "int_true_div 900 700 = Inr (5790342378047781 / 4503599627370496)"
    "int_true_div (640 - 100) (520 - 100) = Inr (5790342378047781 / 4503599627370496)"
    by (simp_all add: eval_defs b64_facts)
  have e: "expand_aspect 100 100 640 520 (5790342378047781 / 4503599627370496) 1000 800 0 =
     Inr (100, 101, 640, 519)"
    by (simp add: eval_defs b64_facts b64_slip_fact)
  have c: "\<not> box_contains (100, 101, 640, 519) (100, 100, 640, 520)"
    by (simp add: box_contains_def)
  have p: "process no_failure default_args web_profile (\<lambda>_. Some (100, 100, 640, 520))
     [File ''a.jpg'' (Some (1000, 800))] \<lparr>dirs = [], files = []\<rparr> =
   (\<lparr>dirs = [[''output'', ''web'']],
     files = [\<lparr>path = [''output'', ''web'', ''a_web900x700.jpg''],
               content = Crop ''a.jpg'' (100, 101, 640, 519) (900, 700),
               quality = Some 40\<rparr>]\<rparr>, None)"
    by (simp add: process_def is_image_suffix_def path_suffix_def path_stem_def rfind_dot_def
        str_lower_def lower_char_def batch_image_def batch_profile_def web_profile_def
        default_args_def box_width_def box_height_def str_int_def str_nat.simps r(1) e
        run_defs)
  from r e c p show ?thesis by blast
qed

section \<open>Cell partitioning of the composition\<close>

lemma paste_cols_exact:
  assumes "idx + length cols \<le> length imgs"
    and "\<forall>im \<in> set imgs. \<exists>sz. snd im = Some sz \<and> lib (Fit (fst im) sz (cw_cell, rh)) = None"
  shows "paste_cols lib imgs cw_cell rh gutter y cols idx acc =
           Inr (idx + length cols,
                acc @ map2 (\<lambda>im col. \<lparr>img = fst im, cell = (cw_cell, rh),
                                       pos = (col * (cw_cell + gutter), y)\<rparr>)
                        (take (length cols) (drop idx imgs)) cols)"
  using assms(1)
proof (induction cols arbitrary: idx acc)
  case Nil
  then show ?case by simp
next
  case (Cons col cols)
  from Cons.prems have lt: "idx < length imgs" by simp
  then have "imgs ! idx \<in> set imgs" by simp
  with assms(2) obtain sz where sz: "snd (imgs ! idx) = Some sz"
    "lib (Fit (fst (imgs ! idx)) sz (cw_cell, rh)) = None"
    by blast
  from Cons.prems have "Suc idx + length cols \<le> length imgs" by simp
  note ih = Cons.IH [OF this]
  have dr: "drop idx imgs = imgs ! idx # drop (Suc idx) imgs"
    using lt by (simp add: Cons_nth_drop_Suc)
  show ?case
    using lt sz by (simp add: ih dr)
qed

lemma compose_rows_exact:
  assumes "idx + sum_list (map nat rest) \<le> length imgs"
    and "\<forall>rcount \<in> set rest. 0 < rcount"
    and "\<forall>im \<in> set imgs. \<forall>rcount \<in> set rest. \<exists>sz. snd im = Some sz \<and>
           lib (Fit (fst im) sz ((cw - gutter * (rcount - 1)) div rcount,
                  (ch - gutter * (int (length rows) - 1)) div int (length rows))) = None"
  shows "\<exists>ps. compose_rows lib imgs cw ch gutter rows rest y idx acc = Inr (acc @ ps) \<and>
           map cell ps =
             concat (map (\<lambda>rcount. replicate (nat rcount)
                        ((cw - gutter * (rcount - 1)) div rcount,
                         (ch - gutter * (int (length rows) - 1)) div int (length rows))) rest) \<and>
           map img ps = map fst (take (sum_list (map nat rest)) (drop idx imgs)) \<and>
           map pos ps =
             concat (map (\<lambda>(i, rcount). map (\<lambda>col.
                        (col * ((cw - gutter * (rcount - 1)) div rcount + gutter),
                         y + int i * ((ch - gutter * (int (length rows) - 1)) div int (length rows)
                                       + gutter))) [0..rcount - 1])
                     (enumerate 0 rest))"
  using assms
proof (induction rest arbitrary: y idx acc)
  case Nil
  then show ?case by simp
next
  case (Cons rcount rest)
  let ?rh = "(ch - gutter * (int (length rows) - 1)) div int (length rows)"
  let ?cwc = "\<lambda>rcount. (cw - gutter * (rcount - 1)) div rcount"
  let ?row = "map2 (\<lambda>im col. \<lparr>img = fst im, cell = (?cwc rcount, ?rh),
                                 pos = (col * (?cwc rcount + gutter), y)\<rparr>)
                (take (length [0..rcount - 1]) (drop idx imgs)) [0..rcount - 1]"
  from Cons.prems(2) have rpos: "0 < rcount" by simp
  then have len: "length [0..rcount - 1] = nat rcount" by simp
  from Cons.prems(1) have le: "idx + length [0..rcount - 1] \<le> length imgs"
    by (simp add: len)
  have fit: "\<forall>im \<in> set imgs. \<exists>sz. snd im = Some sz \<and>
               lib (Fit (fst im) sz (?cwc rcount, ?rh)) = None"
    using Cons.prems(3) by simp
  have pc: "paste_cols lib imgs (?cwc rcount) ?rh gutter y [0..rcount - 1] idx acc =
              Inr (idx + nat rcount, acc @ ?row)"
    using paste_cols_exact [OF le fit, of gutter y acc] by (simp only: len)
  have le': "(idx + nat rcount) + sum_list (map nat rest) \<le> length imgs"
    using Cons.prems(1) by simp
  have pos': "\<forall>rcount \<in> set rest. 0 < rcount" using Cons.prems(2) by simp
  have fit': "\<forall>im \<in> set imgs. \<forall>rcount \<in> set rest. \<exists>sz. snd im = Some sz \<and>
           lib (Fit (fst im) sz (?cwc rcount, ?rh)) = None"
    using Cons.prems(3) by simp
  from Cons.IH [OF le' pos' fit', of "y + ?rh + gutter" "acc @ ?row"]
  obtain qs where qs:
    "compose_rows lib imgs cw ch gutter rows rest (y + ?rh + gutter) (idx + nat rcount) (acc @ ?row)
       = Inr ((acc @ ?row) @ qs)"
    "map cell qs = concat (map (\<lambda>rcount. replicate (nat rcount) (?cwc rcount, ?rh)) rest)"
    "map img qs = map fst (take (sum_list (map nat rest)) (drop (idx + nat rcount) imgs))"
    "map pos qs =
       concat (map (\<lambda>(i, rcount). map (\<lambda>col. (col * (?cwc rcount + gutter),
                       y + ?rh + gutter + int i * (?rh + gutter))) [0..rcount - 1])
                 (enumerate 0 rest))"
    by blast
  have lrow: "length (take (nat rcount) (drop idx imgs)) = nat rcount"
    using Cons.prems(1) by simp
  have c: "map cell ?row = replicate (nat rcount) (?cwc rcount, ?rh)"
    unfolding len using lrow
    by (intro replicate_eqI) (auto simp: set_zip len)
  have i: "map img ?row = map fst (take (nat rcount) (drop idx imgs))"
    unfolding len using lrow
    by (intro nth_equalityI) (simp_all add: len)
  have p: "map pos ?row = map (\<lambda>col. (col * (?cwc rcount + gutter), y)) [0..rcount - 1]"
    unfolding len using lrow
    by (intro nth_equalityI) (simp_all add: len)
  have shift: "enumerate 0 (rcount # rest) = (0, rcount) # map (\<lambda>(i, r). (Suc i, r)) (enumerate 0 rest)"
    by (simp add: enumerate_Suc_eq map_prod_def case_prod_unfold apfst_def)
  have tk: "take (nat rcount + sum_list (map nat rest)) (drop idx imgs) =
              take (nat rcount) (drop idx imgs) @
              take (sum_list (map nat rest)) (drop (idx + nat rcount) imgs)"
    by (simp add: take_add add.commute)
  have res: "compose_rows lib imgs cw ch gutter rows (rcount # rest) y idx acc = Inr (acc @ ?row @ qs)"
    using rpos pc qs(1) by (simp add: Let_def)
  have pq: "map pos qs =
       concat (map (\<lambda>(i, rcount). map (\<lambda>col. (col * (?cwc rcount + gutter),
                       y + int i * (?rh + gutter))) [0..rcount - 1])
                 (map (\<lambda>(i, r). (Suc i, r)) (enumerate 0 rest)))"
    unfolding qs(4)
    by (simp add: map_concat comp_def case_prod_unfold algebra_simps)
  show ?case
    by (intro exI [of _ "?row @ qs"] conjI)
      (simp_all only: res map_append c i p qs(2,3) pq shift tk list.map concat.simps
         prod.case sum_list.Cons of_nat_0 mult_zero_left add_0_right)
qed

lemma floor_div_slack:
  fixes a n :: int
  assumes "0 < n"
  shows "a - (n - 1) \<le> n * (a div n) \<and> n * (a div n) \<le> a"
proof -
  have "a = n * (a div n) + a mod n" by simp
  moreover have "0 \<le> a mod n" "a mod n < n" using assms by simp_all
  ultimately show ?thesis by linarith
qed

text \<open>
  C5: for a non-empty pattern of positive column counts, with enough images that open and
  that \<open>ImageOps.fit\<close> accepts, the row loop runs to its end and pastes, row by row, exactly
  \<open>rcount\<close> cells of \<open>cw_cell = (cw - g * (rcount - 1)) div rcount\<close> by
  \<open>rh = (ch - g * (n - 1)) div n\<close>, the same \<open>rh\<close> in every row, filled with the images in
  their order, at \<open>x = col * (cw_cell + g)\<close> and \<open>y = i * (rh + g)\<close> in row \<open>i\<close>. The rows and
  gutters fill the height up to a slack of \<open>n - 1\<close>:
  \<open>ch - (n - 1) \<le> n * rh + g * (n - 1) \<le> ch\<close>, and the cells and gutters of each row fill
  the width up to \<open>rcount - 1\<close>. (The bounds do not need \<open>ch - g * (n - 1) > 0\<close>.)
\<close>

theorem compose_partition_slack:
  assumes "rows \<noteq> []" and "\<forall>rcount \<in> set rows. 0 < rcount"
    and "sum_list (map nat rows) \<le> length imgs"
    and "\<forall>im \<in> set imgs. \<forall>rcount \<in> set rows. \<exists>sz. snd im = Some sz \<and>
           lib (Fit (fst im) sz ((cw - gutter * (rcount - 1)) div rcount,
                  (ch - gutter * (int (length rows) - 1)) div int (length rows))) = None"
  shows "\<exists>ps. compose_rows lib imgs cw ch gutter rows rows 0 0 [] = Inr ps \<and>
           (let n = int (length rows);
                rh = (ch - gutter * (n - 1)) div n;
                cw_cell = (\<lambda>rcount. (cw - gutter * (rcount - 1)) div rcount)
            in map cell ps = concat (map (\<lambda>rcount. replicate (nat rcount) (cw_cell rcount, rh)) rows) \<and>
               map img ps = map fst (take (sum_list (map nat rows)) imgs) \<and>
               map pos ps =
                 concat (map (\<lambda>(i, rcount).
                           map (\<lambda>col. (col * (cw_cell rcount + gutter), int i * (rh + gutter)))
                             [0..rcount - 1])
                         (enumerate 0 rows)) \<and>
               ch - (n - 1) \<le> n * rh + gutter * (n - 1) \<and>
               n * rh + gutter * (n - 1) \<le> ch \<and>
               (\<forall>rcount \<in> set rows.
                   cw - (rcount - 1) \<le> rcount * cw_cell rcount + gutter * (rcount - 1) \<and>
                   rcount * cw_cell rcount + gutter * (rcount - 1) \<le> cw))"
proof -
  let ?n = "int (length rows)"
  let ?rh = "(ch - gutter * (?n - 1)) div ?n"
  let ?cwc = "\<lambda>rcount. (cw - gutter * (rcount - 1)) div rcount"
  have le: "0 + sum_list (map nat rows) \<le> length imgs" using assms(3) by simp
  from compose_rows_exact [OF le assms(2) assms(4), of 0 "[]"]
  obtain ps where ps: "compose_rows lib imgs cw ch gutter rows rows 0 0 [] = Inr ps"
    "map cell ps = concat (map (\<lambda>rcount. replicate (nat rcount) (?cwc rcount, ?rh)) rows)"
    "map img ps = map fst (take (sum_list (map nat rows)) imgs)"
    "map pos ps =
       concat (map (\<lambda>(i, rcount).
                 map (\<lambda>col. (col * (?cwc rcount + gutter), int i * (?rh + gutter)))
                   [0..rcount - 1])
               (enumerate 0 rows))"
    by auto
  have n: "0 < ?n" using assms(1) by simp
  have rows_slack: "ch - (?n - 1) \<le> ?n * ?rh + gutter * (?n - 1)"
    "?n * ?rh + gutter * (?n - 1) \<le> ch"
    using floor_div_slack [OF n, of "ch - gutter * (?n - 1)"] by linarith+
  have cols: "cw - (rcount - 1) \<le> rcount * ?cwc rcount + gutter * (rcount - 1) \<and>
              rcount * ?cwc rcount + gutter * (rcount - 1) \<le> cw" if "rcount \<in> set rows" for rcount
  proof -
    from that assms(2) have "0 < rcount" by simp
    from floor_div_slack [OF this, of "cw - gutter * (rcount - 1)"]
    show ?thesis by linarith
  qed
  show ?thesis
    unfolding Let_def
    using ps rows_slack cols by (intro exI [of _ ps]) blast
qed

theorem compose_partition_slack_witness:
  "compose_rows no_failure
     [(''a'', Some (1, 1)), (''b'', Some (1, 1)), (''c'', Some (1, 1)), (''d'', Some (1, 1))]
     100 50 7 [1, 3] [1, 3] 0 0 [] =
   Inr [\<lparr>img = ''a'', cell = (100, 21), pos = (0, 0)\<rparr>,
        \<lparr>img = ''b'', cell = (28, 21), pos = (0, 28)\<rparr>,
        \<lparr>img = ''c'', cell = (28, 21), pos = (35, 28)\<rparr>,
        \<lparr>img = ''d'', cell = (28, 21), pos = (70, 28)\<rparr>]"
proof -
  let ?imgs = "[(''a'', Some (1, 1)), (''b'', Some (1, 1)), (''c'', Some (1, 1)),
                (''d'', Some (1::int, 1::int))]"
  have h: "[1, 3] \<noteq> ([] :: int list)" "\<forall>rcount \<in> set [1, 3 :: int]. 0 < rcount"
    "sum_list (map nat [1, 3]) \<le> length ?imgs"
    "\<forall>im \<in> set ?imgs. \<forall>rcount \<in> set [1, 3 :: int]. \<exists>sz. snd im = Some sz \<and>
           no_failure (Fit (fst im) sz ((100 - 7 * (rcount - 1)) div rcount,
                  (50 - 7 * (int (length [1, 3 :: int]) - 1)) div int (length [1, 3 :: int]))) = None"
    by (simp_all add: no_failure_def)
  from compose_partition_slack [OF h]
  obtain ps where ps: "compose_rows no_failure ?imgs 100 50 7 [1, 3] [1, 3] 0 0 [] = Inr ps"
    and c: "map cell ps = concat (map (\<lambda>rcount. replicate (nat rcount)
               ((100 - 7 * (rcount - 1)) div rcount,
                (50 - 7 * (int (length [1, 3 :: int]) - 1)) div int (length [1, 3 :: int]))) [1, 3])"
    and i: "map img ps = map fst (take (sum_list (map nat [1, 3])) ?imgs)"
    and p: "map pos ps =
                 concat (map (\<lambda>(i, rcount).
                           map (\<lambda>col. (col * ((100 - 7 * (rcount - 1)) div rcount + 7),
                                  int i * ((50 - 7 * (int (length [1, 3 :: int]) - 1)) div
                                    int (length [1, 3 :: int]) + 7)))
                             [0..rcount - 1])
                         (enumerate 0 [1, 3]))"
    unfolding Let_def by blast
  have c': "map cell ps = [(100, 21), (28, 21), (28, 21), (28, 21)]"
    unfolding c by (simp add: numeral_3_eq_3)
  have i': "map img ps = [''a'', ''b'', ''c'', ''d'']"
    unfolding i by simp
  have p': "map pos ps = [(0, 0), (0, 28), (35, 28), (70, 28)]"
    unfolding p by (simp add: upto.simps)
  have "ps = [\<lparr>img = ''a'', cell = (100, 21), pos = (0, 0)\<rparr>,
        \<lparr>img = ''b'', cell = (28, 21), pos = (0, 28)\<rparr>,
        \<lparr>img = ''c'', cell = (28, 21), pos = (35, 28)\<rparr>,
        \<lparr>img = ''d'', cell = (28, 21), pos = (70, 28)\<rparr>]"
    using c' i' p' by (auto simp: map_eq_Cons_conv)
  with ps show ?thesis by simp
qed

text \<open>
  C6: four images in a folder, a square 800x800 profile, gutter 10 and rows \<open>[2, 2]\<close>, on a
  fresh run in which no call of the library raises: every cell is 395 by 395 and the
  images, in the order of their names, are pasted at (0,0), (405,0), (0,405) and
  (405,405).
\<close>

theorem compose_square_scenario:
  "run_compose no_failure default_args square_scenario
     (''set'', [(''d.jpg'', Some (10, 10)), (''a.jpg'', Some (10, 10)),
                (''c.jpg'', Some (10, 10)), (''b.jpg'', Some (30, 20))])
     \<lparr>dirs = [], files = []\<rparr> =
   (\<lparr>dirs = [[''output'', ''sq'']],
     files =
       [\<lparr>path = [''output'', ''sq'', ''set_sq_800x800.jpg''],
         content =
           Composite (800, 800) ''#000000''
             [\<lparr>img = ''a.jpg'', cell = (395, 395), pos = (0, 0)\<rparr>,
              \<lparr>img = ''b.jpg'', cell = (395, 395), pos = (405, 0)\<rparr>,
              \<lparr>img = ''c.jpg'', cell = (395, 395), pos = (0, 405)\<rparr>,
              \<lparr>img = ''d.jpg'', cell = (395, 395), pos = (405, 405)\<rparr>],
         quality = Some 95\<rparr>]\<rparr>,
    None)"
  by code_simp

section \<open>Exceptions end the run\<close>

lemma run_batch_append:
  "run_batch lib a cfg detect (xs @ ys) st =
     (case run_batch lib a cfg detect xs st of
        (st', Some e) \<Rightarrow> (st', Some e)
      | (st', None) \<Rightarrow> run_batch lib a cfg detect ys st')"
  by (induction xs arbitrary: st) (auto split: prod.splits option.splits)


lemma batch_image_unreadable:
  "batch_image lib a cfg detect (name, None) st = (st, Some UnidentifiedImageError)"
  by (simp add: batch_image_def)

text \<open>
  C8, as stated: on a fresh run in which no call of the library raises, \<open>good.jpg\<close> alone
  gets its artifact, but with an unreadable image listed before it the run ends with the
  exception and \<open>good.jpg\<close> gets none.
\<close>

theorem unreadable_image_stops_batch:
  "process no_failure default_args one_profile (\<lambda>_. None) [File ''good.jpg'' (Some (200, 200))]
     \<lparr>dirs = [], files = []\<rparr> =
   (\<lparr>dirs = [[''output'', ''thumb'']],
     files = [\<lparr>path = [''output'', ''thumb'', ''good_thumb100x100.jpg''],
               content = Crop ''good.jpg'' (30, 30, 170, 170) (100, 100),
               quality = Some 40\<rparr>]\<rparr>, None) \<and>
   process no_failure default_args one_profile (\<lambda>_. None)
     [File ''bad.jpg'' None, File ''good.jpg'' (Some (200, 200))] \<lparr>dirs = [], files = []\<rparr> =
   (\<lparr>dirs = [], files = []\<rparr>, Some UnidentifiedImageError)"
  by (simp add: process_def is_image_suffix_def path_suffix_def path_stem_def rfind_dot_def
      str_lower_def lower_char_def batch_image_def batch_profile_def one_profile_def
      default_args_def box_width_def box_height_def str_int_def str_nat.simps
      center_square_def eval_defs run_defs)

text \<open>
  C8, amended: an unreadable image among the single images raises out of \<open>run_batch\<close>
  and ends the run. What was written for the images before it stays, nothing is written
  for it, and neither the images after it nor any folder is processed.
\<close>

theorem unreadable_image_ends_run:
  assumes "classify items = (before @ (name, None) # after, folders)"
  shows "process lib a cfg detect items st =
           (case run_batch lib a cfg detect before st of
              (st', Some e) \<Rightarrow> (st', Some e)
            | (st', None) \<Rightarrow> (st', Some UnidentifiedImageError))"
  using assms
  by (simp add: process_def run_batch_append batch_image_unreadable
      split: prod.splits option.splits)

lemma classify_bad_first:
  "classify [File ''bad.jpg'' None, File ''good.jpg'' (Some (200, 200)), Dir ''set'' []] =
     ([] @ (''bad.jpg'', None) # [(''good.jpg'', Some (200, 200))], [(''set'', [])])"
  by code_simp

theorem unreadable_image_ends_run_witness:
  "classify [File ''bad.jpg'' None, File ''good.jpg'' (Some (200, 200)), Dir ''set'' []] =
     ([] @ (''bad.jpg'', None) # [(''good.jpg'', Some (200, 200))], [(''set'', [])]) \<and>
   process no_failure default_args one_profile (\<lambda>_. None)
     [File ''bad.jpg'' None, File ''good.jpg'' (Some (200, 200)), Dir ''set'' []]
     \<lparr>dirs = [], files = []\<rparr> =
     (\<lparr>dirs = [], files = []\<rparr>, Some UnidentifiedImageError)"
  using unreadable_image_ends_run [OF classify_bad_first, of no_failure default_args one_profile
      "\<lambda>_. None" "\<lparr>dirs = [], files = []\<rparr>"] classify_bad_first
  by simp

text \<open>
  Three more ways in which the first image ends a fresh run with nothing written: a pad
  that inverts the crop box (a 50x50 image with \<open>--pad 40\<close> gives the crop box
  (30, 30, 20, 20)), the debug overlay, which is saved into \<open>out_dir\<close> before any
  \<open>mkdir\<close>, and a file that opens but whose pixels cannot be loaded. With \<open>out_dir\<close>
  in place the overlay is saved, without \<open>quality\<close>, before the crop.
\<close>

lemma inverted_crop_box_raises:
  "process no_failure default_args one_profile (\<lambda>_. None) [File ''small.jpg'' (Some (50, 50))]
     \<lparr>dirs = [], files = []\<rparr> =
   (\<lparr>dirs = [], files = []\<rparr>, Some ValueError)"
  by (simp add: process_def is_image_suffix_def path_suffix_def path_stem_def rfind_dot_def
      str_lower_def lower_char_def batch_image_def batch_profile_def one_profile_def
      default_args_def box_width_def box_height_def str_int_def str_nat.simps
      center_square_def eval_defs run_defs b64_minus)

lemma debug_overlay_needs_out_dir:
  "process no_failure (default_args\<lparr>debug := True\<rparr>) one_profile (\<lambda>_. None)
     [File ''good.jpg'' (Some (200, 200))] \<lparr>dirs = [], files = []\<rparr> =
   (\<lparr>dirs = [], files = []\<rparr>, Some FileNotFoundError) \<and>
   process no_failure (default_args\<lparr>debug := True\<rparr>) one_profile (\<lambda>_. None)
     [File ''good.jpg'' (Some (200, 200))] \<lparr>dirs = [[''output'']], files = []\<rparr> =
   (\<lparr>dirs = [[''output''], [''output'', ''thumb'']],
     files = [\<lparr>path = [''output'', ''debug_good.jpg''],
               content = DebugOverlay ''good.jpg'' (40, 40, 160, 160),
               quality = None\<rparr>,
              \<lparr>path = [''output'', ''thumb'', ''good_thumb100x100.jpg''],
               content = Crop ''good.jpg'' (30, 30, 170, 170) (100, 100),
               quality = Some 40\<rparr>]\<rparr>, None)"
  by (simp add: process_def is_image_suffix_def path_suffix_def path_stem_def rfind_dot_def
      str_lower_def lower_char_def batch_image_def batch_profile_def one_profile_def
      default_args_def box_width_def box_height_def str_int_def str_nat.simps
      center_square_def eval_defs run_defs)

lemma damaged_file_raises:
  "process (\<lambda>c. if c = Load ''cut.jpg'' then Some OSError else None) default_args one_profile
     (\<lambda>_. None) [File ''cut.jpg'' (Some (200, 200)), File ''good.jpg'' (Some (200, 200))]
     \<lparr>dirs = [], files = []\<rparr> =
   (\<lparr>dirs = [], files = []\<rparr>, Some OSError)"
  by (simp add: process_def is_image_suffix_def path_suffix_def path_stem_def rfind_dot_def
      str_lower_def lower_char_def batch_image_def batch_profile_def one_profile_def
      default_args_def box_width_def box_height_def str_int_def str_nat.simps
      center_square_def eval_defs run_defs)








section \<open>The quality of the saved images\<close>

lemma map_filter_append:
  "List.map_filter f (xs @ ys) = List.map_filter f xs @ List.map_filter f ys"
  by (simp add: List.map_filter_def)

lemma mkdir_files:
  assumes "mkdir lib d st = (st', r)"
  shows "files st' = files st" and "r = None \<Longrightarrow> is_dir st' d"
  using assms by (auto simp: mkdir_def is_dir_def split: option.splits)

lemma save_files:
  assumes "save lib dir fname im q st = (st', r)"
  shows "files st' = files st @
           (if r = None then [\<lparr>path = dir @ [fname], content = im, quality = q\<rparr>] else [])"
  using assms [symmetric] by (auto simp: save_def split: option.splits if_splits)

lemma resize_and_save_files:
  assumes "resize_and_save lib im dst name ext sep tg tw th q st = (st', r)"
  shows "\<exists>fname. files st' = files st @
           (if r = None then [\<lparr>path = dst @ [fname], content = im, quality = Some q\<rparr>] else [])"
proof -
  obtain st1 r1 where m: "mkdir lib dst st = (st1, r1)" by (cases "mkdir lib dst st")
  show ?thesis
  proof (cases r1)
    case (Some e)
    with m assms [symmetric] mkdir_files(1) [OF m] show ?thesis by (simp add: resize_and_save_def)
  next
    case None
    with m assms have
      "save lib dst (name @ sep @ tg @ str_int tw @ ''x'' @ str_int th @ ext) im (Some q) st1 = (st', r)"
      by (simp add: resize_and_save_def)
    from save_files [OF this] mkdir_files(1) [OF m] show ?thesis by auto
  qed
qed

lemma batch_profile_saves:
  assumes "batch_profile lib a cfg src wh bbox prof st = (st', r)"
  shows "\<exists>new. files st' = files st @ new \<and> list_all (batch_saved a) new \<and>
           List.map_filter saved_crop new =
             (if r = None then [([out_dir a, tag prof], src, size_wh prof, Some (arg_pad a))] else [])"
proof -
  have none: ?thesis if "st' = st" "r \<noteq> None"
    using that by (intro exI [of _ "[]"]) (simp add: List.map_filter_def)
  obtain tw th where sz: "size_wh prof = (tw, th)" by (cases "size_wh prof")
  obtain w h where wh: "wh = (w, h)" by (cases wh)
  obtain l t r0 b where bb: "bbox = (l, t, r0, b)" by (cases bbox)
  show ?thesis
  proof (cases "int_true_div tw th")
    case (Inl e)
    with assms [symmetric] sz wh bb show ?thesis by (intro none) (auto simp: batch_profile_def Let_def)
  next
    case (Inr ratio)
    note ratio = this
    let ?pad = "case pad_opt prof of
                  None \<Rightarrow> (case default_pad_opt cfg of None \<Rightarrow> arg_pad a | Some p \<Rightarrow> p)
                | Some p \<Rightarrow> p"
    show ?thesis
    proof (cases "expand_aspect l t r0 b ratio w h ?pad")
      case (Inl e)
      with assms [symmetric] sz wh bb ratio show ?thesis
        by (intro none) (auto simp: batch_profile_def Let_def)
    next
      case (Inr bx)
      note bx = this
      show ?thesis
      proof (cases "im_crop lib src bx")
        case (Some e)
        with assms [symmetric] sz wh bb ratio bx show ?thesis
          by (intro none) (auto simp: batch_profile_def Let_def)
      next
        case None
        note cr = this
        show ?thesis
        proof (cases "lib (Fit src (box_width bx, box_height bx) (tw, th))")
          case (Some e)
          with assms [symmetric] sz wh bb ratio bx cr show ?thesis
            by (intro none) (auto simp: batch_profile_def Let_def)
        next
          case None
          with assms sz wh bb ratio bx cr have
            "resize_and_save lib (Crop src bx (tw, th)) [out_dir a, tag prof]
               (path_stem src) (path_suffix src)
               (case separator_opt cfg of None \<Rightarrow> ''_'' | Some s \<Rightarrow> s) (tag prof) tw th
               (arg_pad a) st = (st', r)"
            by (simp add: batch_profile_def Let_def)
          from resize_and_save_files [OF this] obtain fname where
            "files st' = files st @
               (if r = None then [\<lparr>path = [out_dir a, tag prof] @ [fname],
                   content = Crop src bx (tw, th), quality = Some (arg_pad a)\<rparr>] else [])"
            by blast
          then show ?thesis
            using sz
            by (intro exI [of _ "if r = None then [\<lparr>path = [out_dir a, tag prof] @ [fname],
                   content = Crop src bx (tw, th), quality = Some (arg_pad a)\<rparr>] else []"])
              (simp add: batch_saved_def saved_crop_def List.map_filter_def)
        qed
      qed
    qed
  qed
qed

lemma batch_profiles_saves:
  assumes "batch_profiles lib a cfg src wh bbox ps st = (st', r)"
  shows "\<exists>new. files st' = files st @ new \<and> list_all (batch_saved a) new \<and>
           prefix (List.map_filter saved_crop new)
             (map (\<lambda>prof. ([out_dir a, tag prof], src, size_wh prof, Some (arg_pad a))) ps) \<and>
           (r = None \<longrightarrow> List.map_filter saved_crop new =
              map (\<lambda>prof. ([out_dir a, tag prof], src, size_wh prof, Some (arg_pad a))) ps)"
  using assms
proof (induction ps arbitrary: st)
  case Nil
  then show ?case by (intro exI [of _ "[]"]) (simp add: List.map_filter_def)
next
  case (Cons prof ps)
  obtain st1 r1 where s: "batch_profile lib a cfg src wh bbox prof st = (st1, r1)"
    by (cases "batch_profile lib a cfg src wh bbox prof st")
  from batch_profile_saves [OF s] obtain n1 where n1:
    "files st1 = files st @ n1" "list_all (batch_saved a) n1"
    "List.map_filter saved_crop n1 =
       (if r1 = None then [([out_dir a, tag prof], src, size_wh prof, Some (arg_pad a))] else [])"
    by blast
  show ?case
  proof (cases r1)
    case (Some e)
    with s Cons.prems have "st' = st1" "r = Some e" by simp_all
    with n1 Some show ?thesis by (intro exI [of _ n1]) simp
  next
    case None
    with s Cons.prems have "batch_profiles lib a cfg src wh bbox ps st1 = (st', r)" by simp
    from Cons.IH [OF this] obtain n2 where n2:
      "files st' = files st1 @ n2" "list_all (batch_saved a) n2"
      "prefix (List.map_filter saved_crop n2)
         (map (\<lambda>prof. ([out_dir a, tag prof], src, size_wh prof, Some (arg_pad a))) ps)"
      "r = None \<longrightarrow> List.map_filter saved_crop n2 =
         map (\<lambda>prof. ([out_dir a, tag prof], src, size_wh prof, Some (arg_pad a))) ps"
      by blast
    with n1 None show ?thesis
      by (intro exI [of _ "n1 @ n2"]) (simp add: map_filter_append)
  qed
qed

lemma debug_overlay_saves:
  assumes "debug_overlay lib a src bbox st = (st', r)"
  shows "\<exists>new. files st' = files st @ new \<and> list_all (batch_saved a) new \<and>
           List.map_filter saved_crop new = []"
proof (cases "lib (Load src) = None \<and> lib (Rectangle src bbox) = None")
  case True
  with assms have "save lib [out_dir a] (''debug_'' @ path_stem src @ ''.jpg'')
                     (DebugOverlay src bbox) None st = (st', r)"
    by (simp add: debug_overlay_def)
  from save_files [OF this] show ?thesis
    by (simp add: batch_saved_def saved_crop_def List.map_filter_def)
next
  case False
  with assms [symmetric] have "st' = st"
    by (auto simp: debug_overlay_def split: option.splits)
  then show ?thesis by (intro exI [of _ "[]"]) (simp add: List.map_filter_def)
qed

lemma batch_image_saves:
  assumes "batch_image lib a cfg detect src st = (st', r)"
  shows "\<exists>new. files st' = files st @ new \<and> list_all (batch_saved a) new \<and>
           prefix (List.map_filter saved_crop new)
             (map (\<lambda>prof. ([out_dir a, tag prof], fst src, size_wh prof, Some (arg_pad a)))
                (profiles cfg)) \<and>
           (r = None \<longrightarrow> List.map_filter saved_crop new =
              map (\<lambda>prof. ([out_dir a, tag prof], fst src, size_wh prof, Some (arg_pad a)))
                (profiles cfg))"
proof (cases "snd src")
  case None
  with assms [symmetric] have "st' = st" "r \<noteq> None" by (simp_all add: batch_image_def)
  then show ?thesis by (intro exI [of _ "[]"]) (auto simp: List.map_filter_def)
next
  case (Some wh)
  obtain w h where wh: "wh = (w, h)" by (cases wh)
  define bbox0 where "bbox0 = (case detect (fst src) of
                         None \<Rightarrow> center_square w h (arg_pad a)
                       | Some bx \<Rightarrow> bx)"
  define bbox where "bbox = (if box_width bbox0 * box_height bbox0 < min_area a \<or>
                         (case max_area a of None \<Rightarrow> False
                          | Some m \<Rightarrow> m \<noteq> 0 \<and> m < box_width bbox0 * box_height bbox0)
                      then center_square w h (arg_pad a) else bbox0)"
  obtain st1 r1 where d: "(if debug a then debug_overlay lib a (fst src) bbox st else (st, None))
                            = (st1, r1)"
    by (cases "if debug a then debug_overlay lib a (fst src) bbox st else (st, None)")
  have "batch_image lib a cfg detect src st =
          (case (if debug a then debug_overlay lib a (fst src) bbox st else (st, None)) of
             (st1, Some e) \<Rightarrow> (st1, Some e)
           | (st1, None) \<Rightarrow>
               batch_profiles lib a cfg (fst src) (w, h) bbox (profiles cfg) st1)"
    unfolding batch_image_def Let_def Some wh bbox_def bbox0_def
    by (simp only: option.case prod.case)
  then have run: "batch_image lib a cfg detect src st =
               (case r1 of Some e \<Rightarrow> (st1, Some e)
                | None \<Rightarrow> batch_profiles lib a cfg (fst src) (w, h) bbox (profiles cfg) st1)"
    unfolding d by (cases r1) simp_all
  have "\<exists>n0. files st1 = files st @ n0 \<and> list_all (batch_saved a) n0 \<and>
          List.map_filter saved_crop n0 = []"
  proof (cases "debug a")
    case True
    with d have "debug_overlay lib a (fst src) bbox st = (st1, r1)" by simp
    from debug_overlay_saves [OF this] show ?thesis .
  next
    case False
    with d have "st1 = st" by simp
    then show ?thesis by (intro exI [of _ "[]"]) (simp add: List.map_filter_def)
  qed
  then obtain n0 where n0: "files st1 = files st @ n0" "list_all (batch_saved a) n0"
    "List.map_filter saved_crop n0 = []"
    by blast
  show ?thesis
  proof (cases r1)
    case (Some e)
    with run assms have "st' = st1" "r = Some e" by simp_all
    with n0 show ?thesis by (intro exI [of _ n0]) simp
  next
    case None
    with run assms have
      "batch_profiles lib a cfg (fst src) (w, h) bbox (profiles cfg) st1 = (st', r)"
      by simp
    from batch_profiles_saves [OF this] obtain n1 where
      "files st' = files st1 @ n1" "list_all (batch_saved a) n1"
      "prefix (List.map_filter saved_crop n1)
         (map (\<lambda>prof. ([out_dir a, tag prof], fst src, size_wh prof, Some (arg_pad a)))
            (profiles cfg))"
      "r = None \<longrightarrow> List.map_filter saved_crop n1 =
         map (\<lambda>prof. ([out_dir a, tag prof], fst src, size_wh prof, Some (arg_pad a)))
            (profiles cfg)"
      by blast
    with n0 show ?thesis
      by (intro exI [of _ "n0 @ n1"]) (simp add: map_filter_append)
  qed
qed

lemma run_batch_saves:
  assumes "run_batch lib a cfg detect srcs st = (st', r)"
  shows "\<exists>new. files st' = files st @ new \<and> list_all (batch_saved a) new \<and>
           prefix (List.map_filter saved_crop new)
             (concat (map (\<lambda>src.
                map (\<lambda>prof. ([out_dir a, tag prof], fst src, size_wh prof, Some (arg_pad a)))
                  (profiles cfg)) srcs)) \<and>
           (r = None \<longrightarrow> List.map_filter saved_crop new =
              concat (map (\<lambda>src.
                map (\<lambda>prof. ([out_dir a, tag prof], fst src, size_wh prof, Some (arg_pad a)))
                  (profiles cfg)) srcs))"
  using assms
proof (induction srcs arbitrary: st)
  case Nil
  then show ?case by (intro exI [of _ "[]"]) (simp add: List.map_filter_def)
next
  case (Cons src srcs)
  let ?row = "\<lambda>src. map (\<lambda>prof. ([out_dir a, tag prof], fst src, size_wh prof, Some (arg_pad a)))
                 (profiles cfg)"
  obtain st1 r1 where s: "batch_image lib a cfg detect src st = (st1, r1)"
    by (cases "batch_image lib a cfg detect src st")
  from batch_image_saves [OF s] obtain n1 where n1:
    "files st1 = files st @ n1" "list_all (batch_saved a) n1"
    "prefix (List.map_filter saved_crop n1) (?row src)"
    "r1 = None \<longrightarrow> List.map_filter saved_crop n1 = ?row src"
    by blast
  show ?case
  proof (cases r1)
    case (Some e)
    with s Cons.prems have "st' = st1" "r = Some e" by simp_all
    with n1 show ?thesis by (intro exI [of _ n1]) (simp add: prefix_prefix)
  next
    case None
    with s Cons.prems have "run_batch lib a cfg detect srcs st1 = (st', r)" by simp
    from Cons.IH [OF this] obtain n2 where n2:
      "files st' = files st1 @ n2" "list_all (batch_saved a) n2"
      "prefix (List.map_filter saved_crop n2) (concat (map ?row srcs))"
      "r = None \<longrightarrow> List.map_filter saved_crop n2 = concat (map ?row srcs)"
      by blast
    with n1 None show ?thesis
      by (intro exI [of _ "n1 @ n2"]) (simp add: map_filter_append)
  qed
qed

lemma compose_profile_saves:
  assumes "compose_profile lib a cfg folder imgs prof st = (st', r)"
  shows "\<exists>new. files st' = files st @ new \<and> list_all compose_saved new \<and>
           map saved_composite new =
             (if r = None then [Some ([out_dir a, tag prof], size_wh prof, Some 95)] else [])"
proof -
  have none: ?thesis if "files st' = files st" "r \<noteq> None"
    using that by (intro exI [of _ "[]"]) simp
  obtain cw ch where sz: "size_wh prof = (cw, ch)" by (cases "size_wh prof")
  show ?thesis
  proof (cases "layouts cfg (orient_of cw ch)")
    case None
    with assms [symmetric] sz show ?thesis by (intro none) (auto simp: compose_profile_def Let_def)
  next
    case (Some layout_cfg)
    note lay = this
    let ?g = "case gutter_opt layout_cfg of None \<Rightarrow> 0 | Some g \<Rightarrow> g"
    let ?bg = "case bg_color_opt layout_cfg of None \<Rightarrow> ''#000000'' | Some c \<Rightarrow> c"
    show ?thesis
    proof (cases "patterns layout_cfg (str_nat (length imgs))")
      case None
      with assms [symmetric] sz lay show ?thesis by (intro none) (auto simp: compose_profile_def Let_def)
    next
      case (Some rows)
      note pat = this
      obtain st1 r1 where m: "mkdir lib [out_dir a, tag prof] st = (st1, r1)"
        by (cases "mkdir lib [out_dir a, tag prof] st")
      note mf = mkdir_files(1) [OF m]
      show ?thesis
      proof (cases "r1 = None \<and> lib (New (cw, ch) ?bg) = None")
        case False
        with assms [symmetric] sz lay pat m mf show ?thesis
          by (intro none) (auto simp: compose_profile_def Let_def split: option.splits)
      next
        case True
        note ok = this
        show ?thesis
        proof (cases "compose_rows lib imgs cw ch ?g rows rows 0 0 []")
          case (Inl e)
          with assms [symmetric] sz lay pat m mf ok show ?thesis
            by (intro none) (auto simp: compose_profile_def Let_def)
        next
          case (Inr ps)
          with assms sz lay pat m ok have
            "save lib [out_dir a, tag prof]
               (folder @ ''_'' @ tag prof @ (case separator_opt cfg of None \<Rightarrow> ''_'' | Some s \<Rightarrow> s) @
                str_int cw @ ''x'' @ str_int ch @ ''.jpg'')
               (Composite (cw, ch) ?bg ps) (Some 95) st1 = (st', r)"
            by (auto simp: compose_profile_def Let_def)
          from save_files [OF this] mf sz show ?thesis
            by (simp add: compose_saved_def saved_composite_def)
        qed
      qed
    qed
  qed
qed

lemma compose_profiles_saves:
  assumes "compose_profiles lib a cfg folder imgs ps st = (st', r)"
  shows "\<exists>new. files st' = files st @ new \<and> list_all compose_saved new \<and>
           prefix (map saved_composite new)
             (map (\<lambda>prof. Some ([out_dir a, tag prof], size_wh prof, Some 95)) ps) \<and>
           (r = None \<longrightarrow> map saved_composite new =
              map (\<lambda>prof. Some ([out_dir a, tag prof], size_wh prof, Some 95)) ps)"
  using assms
proof (induction ps arbitrary: st)
  case Nil
  then show ?case by (intro exI [of _ "[]"]) simp
next
  case (Cons prof ps)
  obtain st1 r1 where s: "compose_profile lib a cfg folder imgs prof st = (st1, r1)"
    by (cases "compose_profile lib a cfg folder imgs prof st")
  from compose_profile_saves [OF s] obtain n1 where n1:
    "files st1 = files st @ n1" "list_all compose_saved n1"
    "map saved_composite n1 =
       (if r1 = None then [Some ([out_dir a, tag prof], size_wh prof, Some 95)] else [])"
    by blast
  show ?case
  proof (cases r1)
    case (Some e)
    with s Cons.prems have "st' = st1" "r = Some e" by simp_all
    with n1 Some show ?thesis by (intro exI [of _ n1]) simp
  next
    case None
    with s Cons.prems have "compose_profiles lib a cfg folder imgs ps st1 = (st', r)" by simp
    from Cons.IH [OF this] obtain n2 where n2:
      "files st' = files st1 @ n2" "list_all compose_saved n2"
      "prefix (map saved_composite n2)
         (map (\<lambda>prof. Some ([out_dir a, tag prof], size_wh prof, Some 95)) ps)"
      "r = None \<longrightarrow> map saved_composite n2 =
         map (\<lambda>prof. Some ([out_dir a, tag prof], size_wh prof, Some 95)) ps"
      by blast
    with n1 None show ?thesis
      by (intro exI [of _ "n1 @ n2"]) simp
  qed
qed

lemma run_compose_saves:
  "\<exists>new. files (fst (run_compose lib a cfg folder st)) = files st @ new \<and>
         list_all compose_saved new \<and>
         prefix (map saved_composite new)
           (map (\<lambda>prof. Some ([out_dir a, tag prof], size_wh prof, Some 95)) (profiles cfg)) \<and>
         (snd (run_compose lib a cfg folder st) = None \<and> glob_jpg (snd folder) \<noteq> [] \<longrightarrow>
            map saved_composite new =
              map (\<lambda>prof. Some ([out_dir a, tag prof], size_wh prof, Some 95)) (profiles cfg))"
proof (cases "glob_jpg (snd folder) = []")
  case True
  then show ?thesis by (intro exI [of _ "[]"]) (simp add: run_compose_def)
next
  case False
  obtain st' r where
    s: "compose_profiles lib a cfg (fst folder) (glob_jpg (snd folder)) (profiles cfg) st = (st', r)"
    by (cases "compose_profiles lib a cfg (fst folder) (glob_jpg (snd folder)) (profiles cfg) st")
  with False have "run_compose lib a cfg folder st = (st', r)"
    by (simp add: run_compose_def Let_def)
  with compose_profiles_saves [OF s] show ?thesis by auto
qed

text \<open>
  C9: the crops that \<open>run_batch\<close> saves are, in the order of the images and, for each
  image, of the profiles, the first crops of the list that has one crop for every image
  and every profile, saved in \<open>out_dir/tag\<close> with the \<open>--pad\<close> argument as \<open>quality\<close>,
  whatever the pad of the profile; they are the whole list when \<open>run_batch\<close> returns
  without an exception. Besides the crops it only saves debug overlays, without
  \<open>quality\<close>. Likewise \<open>run_compose\<close> saves nothing but composites, with \<open>quality\<close> 95: the
  first ones of the list that has one composite for every profile, and the whole list
  when it returns without an exception from a folder that has images.
\<close>

theorem saved_quality:
  "(\<exists>new. files (fst (run_batch lib a cfg detect srcs st)) = files st @ new \<and>
          list_all (batch_saved a) new \<and>
          prefix (List.map_filter saved_crop new)
            (concat (map (\<lambda>src.
               map (\<lambda>prof. ([out_dir a, tag prof], fst src, size_wh prof, Some (arg_pad a)))
                 (profiles cfg)) srcs)) \<and>
          (snd (run_batch lib a cfg detect srcs st) = None \<longrightarrow>
             List.map_filter saved_crop new =
               concat (map (\<lambda>src.
                 map (\<lambda>prof. ([out_dir a, tag prof], fst src, size_wh prof, Some (arg_pad a)))
                   (profiles cfg)) srcs))) \<and>
   (\<exists>new. files (fst (run_compose lib a cfg folder st)) = files st @ new \<and>
          list_all compose_saved new \<and>
          prefix (map saved_composite new)
            (map (\<lambda>prof. Some ([out_dir a, tag prof], size_wh prof, Some 95)) (profiles cfg)) \<and>
          (snd (run_compose lib a cfg folder st) = None \<and> glob_jpg (snd folder) \<noteq> [] \<longrightarrow>
             map saved_composite new =
               map (\<lambda>prof. Some ([out_dir a, tag prof], size_wh prof, Some 95)) (profiles cfg)))"
proof -
  obtain st' r where s: "run_batch lib a cfg detect srcs st = (st', r)"
    by (cases "run_batch lib a cfg detect srcs st")
  from run_batch_saves [OF s] s run_compose_saves [of lib a cfg folder st]
  show ?thesis by simp
qed

theorem saved_quality_witness:
  "snd (run_batch no_failure default_args one_profile (\<lambda>_. None)
          [(''good.jpg'', Some (200, 200))] \<lparr>dirs = [], files = []\<rparr>) = None \<and>
   pad_opt (hd (profiles one_profile)) = Some 10 \<and>
   List.map_filter saved_crop
     (files (fst (run_batch no_failure default_args one_profile (\<lambda>_. None)
        [(''good.jpg'', Some (200, 200))] \<lparr>dirs = [], files = []\<rparr>))) =
     [([''output'', ''thumb''], ''good.jpg'', (100, 100), Some 40)] \<and>
   snd (run_compose no_failure default_args square_scenario
          (''set'', [(''a.jpg'', Some (10, 10)), (''b.jpg'', Some (10, 10)),
                     (''c.jpg'', Some (10, 10)), (''d.jpg'', Some (10, 10))])
          \<lparr>dirs = [], files = []\<rparr>) = None \<and>
   map saved_composite
     (files (fst (run_compose no_failure default_args square_scenario
        (''set'', [(''a.jpg'', Some (10, 10)), (''b.jpg'', Some (10, 10)),
                   (''c.jpg'', Some (10, 10)), (''d.jpg'', Some (10, 10))])
        \<lparr>dirs = [], files = []\<rparr>))) =
     [Some ([''output'', ''sq''], (800, 800), Some 95)]"
proof -
  let ?st = "\<lparr>dirs = [], files = []\<rparr>"
  let ?srcs = "[(''good.jpg'', Some (200 :: int, 200 :: int))]"
  let ?folder = "(''set'', [(''a.jpg'', Some (10, 10)), (''b.jpg'', Some (10, 10)),
                   (''c.jpg'', Some (10, 10)), (''d.jpg'', Some (10 :: int, 10 :: int))])"
  let ?B = "run_batch no_failure default_args one_profile (\<lambda>_. None) ?srcs ?st"
  let ?C = "run_compose no_failure default_args square_scenario ?folder ?st"
  have b: "snd ?B = None"
    by (simp add: batch_image_def batch_profile_def one_profile_def
        default_args_def box_width_def box_height_def center_square_def eval_defs run_defs)
  have c: "snd ?C = None" by code_simp
  have g: "glob_jpg (snd ?folder) \<noteq> []" by code_simp
  have p: "pad_opt (hd (profiles one_profile)) = Some 10" by (simp add: one_profile_def)
  from saved_quality [of no_failure default_args one_profile "\<lambda>_. None" ?srcs ?st ?folder] b
  obtain new where "files (fst ?B) = files ?st @ new"
    "List.map_filter saved_crop new =
       concat (map (\<lambda>src.
         map (\<lambda>prof. ([out_dir default_args, tag prof], fst src, size_wh prof,
                  Some (arg_pad default_args)))
           (profiles one_profile)) ?srcs)"
    by blast
  then have crops: "List.map_filter saved_crop (files (fst ?B)) =
      [([''output'', ''thumb''], ''good.jpg'', (100, 100), Some 40)]"
    by (simp add: one_profile_def default_args_def)
  from saved_quality [of no_failure default_args square_scenario "\<lambda>_. None" ?srcs ?st ?folder] c g
  obtain new where "files (fst ?C) = files ?st @ new"
    "map saved_composite new =
       map (\<lambda>prof. Some ([out_dir default_args, tag prof], size_wh prof, Some 95))
         (profiles square_scenario)"
    by blast
  then have comps: "map saved_composite (files (fst ?C)) =
      [Some ([''output'', ''sq''], (800, 800), Some 95)]"
    by (simp add: square_scenario_def default_args_def)
  from b p crops c comps show ?thesis by blast
qed

section \<open>The images of a folder\<close>

lemma set_glob_jpg:
  "set (glob_jpg entries) = {e \<in> set entries. glob_jpg_match (fst e)}"
  by (auto simp: glob_jpg_def)

lemma glob_jpg_filter_idem:
  "glob_jpg (filter (\<lambda>e. glob_jpg_match (fst e)) entries) = glob_jpg entries"
  by (simp add: glob_jpg_def)

lemma glob_jpg_none:
  assumes "\<forall>e \<in> set entries. \<not> glob_jpg_match (fst e)"
  shows "glob_jpg entries = []"
proof -
  have "filter (\<lambda>e. glob_jpg_match (fst e)) entries = []"
    using assms by (simp add: filter_empty_conv)
  then show ?thesis by (simp add: glob_jpg_def)
qed

lemma not_glob_other_ext:
  "\<not> glob_jpg_match (stem @ ''.jpeg'')" "\<not> glob_jpg_match (stem @ ''.png'')"
  "\<not> glob_jpg_match (stem @ ''.JPG'')"
  by (simp_all add: glob_jpg_match_def)

lemma lower_exts:
  "str_lower ''.jpeg'' = ''.jpeg''" "str_lower ''.png'' = ''.png''" "str_lower ''.JPG'' = ''.jpg''"
  by code_simp+

lemma path_suffix_ext:
  assumes "stem \<noteq> []" and "CHR ''.'' \<notin> set ext" and "ext \<noteq> []"
  shows "path_suffix (stem @ CHR ''.'' # ext) = CHR ''.'' # ext"
proof -
  have tw: "takeWhile (\<lambda>c. c \<noteq> CHR ''.'') (rev (stem @ CHR ''.'' # ext)) = rev ext"
    using assms(2) by (auto simp: takeWhile_tail)
  have "rfind_dot (stem @ CHR ''.'' # ext) = Some (length stem)"
    unfolding rfind_dot_def tw by simp
  then show ?thesis
    using assms(1,3) by (simp add: path_suffix_def)
qed

lemma image_suffix_exts:
  assumes "stem \<noteq> []"
  shows "is_image_suffix (stem @ ''.jpeg'')" "is_image_suffix (stem @ ''.png'')"
    "is_image_suffix (stem @ ''.JPG'')"
  using path_suffix_ext [OF assms, of "''jpeg''"] path_suffix_ext [OF assms, of "''png''"]
    path_suffix_ext [OF assms, of "''JPG''"]
  by (simp_all add: is_image_suffix_def lower_exts)

text \<open>
  C10: \<open>run_compose\<close> uses exactly the entries of the folder whose name ends with
  \<open>.jpg\<close>: the other entries do not change its result, and a folder without such an entry
  is left without an error. Names ending with \<open>.jpeg\<close>, \<open>.png\<close> or \<open>.JPG\<close> never match,
  although the dispatcher's test accepts each of them.
\<close>

theorem compose_uses_lowercase_jpg_only:
  "set (glob_jpg entries) = {e \<in> set entries. glob_jpg_match (fst e)} \<and>
   run_compose lib a cfg (name, entries) st =
     run_compose lib a cfg (name, filter (\<lambda>e. glob_jpg_match (fst e)) entries) st \<and>
   ((\<forall>e \<in> set entries. \<not> glob_jpg_match (fst e)) \<longrightarrow>
      run_compose lib a cfg (name, entries) st = (st, None)) \<and>
   \<not> glob_jpg_match (stem @ ''.jpeg'') \<and> \<not> glob_jpg_match (stem @ ''.png'') \<and>
   \<not> glob_jpg_match (stem @ ''.JPG'') \<and>
   (stem \<noteq> [] \<longrightarrow>
      is_image_suffix (stem @ ''.jpeg'') \<and> is_image_suffix (stem @ ''.png'') \<and>
      is_image_suffix (stem @ ''.JPG''))"
  using set_glob_jpg [of entries] glob_jpg_none [of entries] not_glob_other_ext [of stem]
    image_suffix_exts [of stem]
  by (simp add: run_compose_def glob_jpg_filter_idem Let_def)

theorem compose_uses_lowercase_jpg_only_witness:
  "glob_jpg [(''b.JPG'', Some (10, 10)), (''c.jpeg'', Some (10, 10)), (''a.png'', Some (10, 10))] = [] \<and>
   run_compose no_failure default_args square_scenario
     (''set'', [(''b.JPG'', Some (10, 10)), (''c.jpeg'', Some (10, 10)), (''a.png'', Some (10, 10))])
     \<lparr>dirs = [], files = []\<rparr> = (\<lparr>dirs = [], files = []\<rparr>, None) \<and>
   classify [File ''b.JPG'' (Some (10, 10)), File ''c.jpeg'' (Some (10, 10)),
             File ''a.png'' (Some (10, 10))] =
     ([(''b.JPG'', Some (10, 10)), (''c.jpeg'', Some (10, 10)), (''a.png'', Some (10, 10))], [])"
proof -
  let ?es = "[(''b.JPG'', Some (10, 10)), (''c.jpeg'', Some (10, 10)), (''a.png'', Some (10::int, 10::int))]"
  have n: "\<forall>e \<in> set ?es. \<not> glob_jpg_match (fst e)"
    using not_glob_other_ext [of "''b''"] not_glob_other_ext [of "''c''"] not_glob_other_ext [of "''a''"]
    by simp
  have s: "is_image_suffix ''b.JPG''" "is_image_suffix ''c.jpeg''" "is_image_suffix ''a.png''"
    using compose_uses_lowercase_jpg_only [of ?es no_failure default_args square_scenario "''set''"
        "\<lparr>dirs = [], files = []\<rparr>" "''b''"]
      compose_uses_lowercase_jpg_only [of ?es no_failure default_args square_scenario "''set''"
        "\<lparr>dirs = [], files = []\<rparr>" "''c''"]
      compose_uses_lowercase_jpg_only [of ?es no_failure default_args square_scenario "''set''"
        "\<lparr>dirs = [], files = []\<rparr>" "''a''"]
    by simp_all
  have r: "run_compose no_failure default_args square_scenario (''set'', ?es)
             \<lparr>dirs = [], files = []\<rparr> = (\<lparr>dirs = [], files = []\<rparr>, None)"
    using compose_uses_lowercase_jpg_only [of ?es no_failure default_args square_scenario "''set''"
        "\<lparr>dirs = [], files = []\<rparr>" "''b''"] n
    by blast
  show ?thesis
    using r s glob_jpg_none [OF n] by simp
qed

end
